theory Spec2Isabelle
  imports Main
begin

unbundle bit_operations_syntax

section \<open>getSequence: the longest stable subsequence of the keyed diff\<close>

text \<open>
  \<^verbatim>\<open>getSequence(arr: number[]): number[]\<close> of \<^verbatim>\<open>renderer.ts\<close>. The arrays hold
  non-negative integers (old indices offset by one, and positions), so they are
  \<open>nat list\<close>. A JavaScript read outside the array gives \<^verbatim>\<open>undefined\<close>, which is
  \<open>None\<close> here; a comparison with \<^verbatim>\<open>undefined\<close> is false.
\<close>

definition js_get :: "nat list \<Rightarrow> nat \<Rightarrow> nat option" where
  "js_get xs i = (if i < length xs then Some (xs ! i) else None)"

fun js_lt :: "nat option \<Rightarrow> nat option \<Rightarrow> bool" where
  "js_lt (Some a) (Some b) = (a < b)"
| "js_lt _ _ = False"

text \<open>\<^verbatim>\<open>arr[result[c]]\<close>\<close>

definition arr_at_result :: "nat list \<Rightarrow> nat list \<Rightarrow> nat \<Rightarrow> nat option" where
  "arr_at_result arr result c = (case js_get result c of None \<Rightarrow> None | Some j \<Rightarrow> js_get arr j)"

text \<open>
  The binary search
  \<^verbatim>\<open>while (u < v) { c = (u + v) >> 1; if (arr[result[c]] < arrI) u = c + 1 else v = c }\<close>,
  returning the final \<open>u\<close>.
\<close>

function getSequence_search :: "nat list \<Rightarrow> nat list \<Rightarrow> nat \<Rightarrow> nat \<Rightarrow> nat \<Rightarrow> nat" where
  "getSequence_search arr result arrI u v =
     (if u < v then
        (let c = (u + v) div 2 in
         if js_lt (arr_at_result arr result c) (Some arrI)
         then getSequence_search arr result arrI (c + 1) v
         else getSequence_search arr result arrI u c)
      else u)"
  by pat_completeness auto
termination
  by (relation "measure (\<lambda>(arr, result, arrI, u, v). v - u)") auto

declare getSequence_search.simps [simp del]

text \<open>
  One pass of the \<^verbatim>\<open>for (i = 0; i < len; i++)\<close> loop over the state \<open>(p, result)\<close>;
  \<^verbatim>\<open>continue\<close> is the first branch.
\<close>

definition getSequence_step :: "nat list \<Rightarrow> nat \<Rightarrow> nat list \<times> nat list \<Rightarrow> nat list \<times> nat list" where
  "getSequence_step arr i s =
     (case s of (p, result) \<Rightarrow>
      (let arrI = arr ! i in
       if arrI \<noteq> 0 then
         (let j = result ! (length result - 1) in
          if js_lt (js_get arr j) (Some arrI) then (p[i := j], result @ [i])
          else
            (let u = getSequence_search arr result arrI 0 (length result - 1) in
             if js_lt (Some arrI) (arr_at_result arr result u)
             then ((if u > 0 then p[i := result ! (u - 1)] else p), result[u := i])
             else (p, result)))
       else (p, result)))"

function getSequence_loop :: "nat list \<Rightarrow> nat \<Rightarrow> nat list \<times> nat list \<Rightarrow> nat list \<times> nat list" where
  "getSequence_loop arr i s =
     (if i < length arr then getSequence_loop arr (i + 1) (getSequence_step arr i s) else s)"
  by pat_completeness auto
termination
  by (relation "measure (\<lambda>(arr, i, s). length arr - i)") auto

declare getSequence_loop.simps [simp del]

text \<open>
  The final loop \<^verbatim>\<open>while (u-- > 0) { result[u] = v; v = p[v] }\<close>. \<open>v\<close> may become
  \<^verbatim>\<open>undefined\<close> (a read of \<open>p\<close> out of range); the result \<open>None\<close> stands for an array
  into which \<^verbatim>\<open>undefined\<close> was stored.
\<close>

fun getSequence_trace :: "nat \<Rightarrow> nat option \<Rightarrow> nat list \<Rightarrow> nat list \<Rightarrow> nat list option" where
  "getSequence_trace 0 v p result = Some result"
| "getSequence_trace (Suc u) None p result = None"
| "getSequence_trace (Suc u) (Some w) p result = getSequence_trace u (js_get p w) p (result[u := w])"

definition getSequence :: "nat list \<Rightarrow> nat list option" where
  "getSequence arr =
     (case getSequence_loop arr 0 (arr, [0]) of (p, result) \<Rightarrow>
        getSequence_trace (length result) (js_get result (length result - 1)) p result)"


section \<open>The data model of the renderer\<close>

subsection \<open>Constants of the shared package\<close>

text \<open>
  Modelled from the spec: the \<^verbatim>\<open>PatchFlags\<close> enumeration and \<^verbatim>\<open>isReservedProp\<close> of
  \<^verbatim>\<open>@vue/shared\<close>, and the build flags \<^verbatim>\<open>__DEV__\<close> and \<^verbatim>\<open>isHmrUpdating\<close>, are not
  under \<^verbatim>\<open>src/\<close>. The spec (4.1, 6) fixes the patch flags as a numeric protocol
  of bits with two negative sentinels and gives no values, so they are fields of an
  environment that every function of the renderer takes.
\<close>

record env =
  DEV :: bool
  isHmrUpdating :: bool
  isReservedProp :: "string \<Rightarrow> bool"
  TEXT :: int
  CLASS :: int
  STYLE :: int
  PROPS :: int
  FULL_PROPS :: int
  HYDRATE_EVENTS :: int
  STABLE_FRAGMENT :: int
  KEYED_FRAGMENT :: int
  UNKEYED_FRAGMENT :: int
  DEV_ROOT_FRAGMENT :: int
  BAIL :: int

subsection \<open>Virtual nodes\<close>

text \<open>
  A key is a string, a number or a symbol; JavaScript values that occur as props are
  primitives, compared by value, or objects, compared by reference.
\<close>

datatype vkey = KString string | KNumber int | KSymbol nat

datatype jsval = JUndefined | JNull | JString string | JNumber int | JBool bool | JObject nat

text \<open>
  A props object: its identity (for \<^verbatim>\<open>oldProps !== newProps\<close>) and its own enumerable
  entries in enumeration order.
\<close>

record props_obj =
  obj_id :: nat
  entries :: "(string \<times> jsval) list"

definition EMPTY_OBJ :: props_obj where
  "EMPTY_OBJ = \<lparr>obj_id = 0, entries = []\<rparr>"

definition prop_get :: "props_obj \<Rightarrow> string \<Rightarrow> jsval" where
  "prop_get ps k = (case map_of (entries ps) k of None \<Rightarrow> JUndefined | Some v \<Rightarrow> v)"

definition prop_in :: "string \<Rightarrow> props_obj \<Rightarrow> bool" where
  "prop_in k ps \<longleftrightarrow> k \<in> fst ` set (entries ps)"

definition prop_keys :: "props_obj \<Rightarrow> string list" where
  "prop_keys ps = map fst (entries ps)"

text \<open>
  Modelled from the spec: \<^verbatim>\<open>vnode.ts\<close> is not under \<^verbatim>\<open>src/\<close>. The virtual node of spec
  section 3: the type discriminator, the key, the props, the children (none, text or an
  ordered list), the patch flag, the dynamic children of a block. \<open>ident\<close> is the
  identity of the JavaScript object (for \<^verbatim>\<open>n1 === n2\<close>). A component node carries the
  state of its instance that \<^verbatim>\<open>unmount\<close>, \<^verbatim>\<open>move\<close> and \<^verbatim>\<open>getNextHostNode\<close> read:
  no instance, an instance whose \<^verbatim>\<open>update\<close> is still null, or the current sub-tree.
  The shape flags are read off the type and the children, as \<^verbatim>\<open>createVNode\<close> sets them.
  The fields the renderer assigns after creation (\<^verbatim>\<open>el\<close>, \<^verbatim>\<open>anchor\<close>, and
  \<^verbatim>\<open>dynamicChildren\<close> when a node bails out) live in the renderer state below.
\<close>

datatype vtype = Text | Comment | Static | Fragment | Element string | Component nat | Teleport | Suspense

datatype 'a comp_instance = NoInstance | Unresolved | SubTree 'a

datatype vnode = VNode (ident: nat) (vtype: vtype) (key: "vkey option") (props: "props_obj option")
    (children: vchildren) (patchFlag: int) (dynamicProps: "string list option")
    (dynamicChildren: "vnode list option") (component: "vnode comp_instance")
  and vchildren = NoChildren | TextChildren string | ArrayChildren "vnode list"

definition is_ELEMENT :: "vnode \<Rightarrow> bool" where
  "is_ELEMENT v = (case vtype v of Element tag \<Rightarrow> True | _ \<Rightarrow> False)"

definition is_COMPONENT :: "vnode \<Rightarrow> bool" where
  "is_COMPONENT v = (case vtype v of Component c \<Rightarrow> True | _ \<Rightarrow> False)"

definition is_TELEPORT :: "vnode \<Rightarrow> bool" where
  "is_TELEPORT v = (vtype v = Teleport)"

definition is_SUSPENSE :: "vnode \<Rightarrow> bool" where
  "is_SUSPENSE v = (vtype v = Suspense)"

definition is_TEXT_CHILDREN :: "vnode \<Rightarrow> bool" where
  "is_TEXT_CHILDREN v = (case children v of TextChildren t \<Rightarrow> True | _ \<Rightarrow> False)"

definition is_ARRAY_CHILDREN :: "vnode \<Rightarrow> bool" where
  "is_ARRAY_CHILDREN v = (case children v of ArrayChildren cs \<Rightarrow> True | _ \<Rightarrow> False)"

text \<open>
  Modelled from the spec: \<^verbatim>\<open>isSameVNodeType\<close> (\<^verbatim>\<open>vnode.ts\<close>). Spec 4.3: two nodes are
  not the same type when the discriminators differ, or the key differs on the same
  discriminator.
\<close>

definition isSameVNodeType :: "vnode \<Rightarrow> vnode \<Rightarrow> bool" where
  "isSameVNodeType n1 n2 \<longleftrightarrow> vtype n1 = vtype n2 \<and> key n1 = key n2"

text \<open>\<^verbatim>\<open>children as string\<close> and \<^verbatim>\<open>children as VNode[]\<close>: \<open>None\<close> when the cast is wrong.\<close>

definition as_string :: "vchildren \<Rightarrow> string option" where
  "as_string c = (case c of TextChildren t \<Rightarrow> Some t | _ \<Rightarrow> None)"

definition as_array :: "vchildren \<Rightarrow> vnode list option" where
  "as_array c = (case c of ArrayChildren cs \<Rightarrow> Some cs | _ \<Rightarrow> None)"

subsection \<open>The renderer state and the host operations\<close>

text \<open>
  Host nodes are handles. The trace records every host operation in order; an insert
  records whether the node was attached to a parent before, that is, whether the insert
  relocates a node that is already in the host tree.
\<close>

type_synonym hnode = nat

datatype hkind = HElement string | HText | HComment

datatype hostop =
    OpInsert hnode hnode "hnode option" bool
  | OpRemove hnode
  | OpCreateElement hnode string
  | OpCreateText hnode string
  | OpCreateComment hnode string
  | OpSetText hnode string
  | OpSetElementText hnode string
  | OpPatchProp hnode string jsval jsval

datatype warning = DuplicateKeys vkey

text \<open>
  The state: the fields that the renderer assigns on virtual nodes (\<^verbatim>\<open>el\<close>, \<^verbatim>\<open>anchor\<close>,
  and the nodes whose \<^verbatim>\<open>dynamicChildren\<close> it has set to null), indexed by the identity
  of the node; the host tree; the trace of host operations; the warnings given.
\<close>

record rstate =
  vnode_el :: "nat \<Rightarrow> hnode option"
  vnode_anchor :: "nat \<Rightarrow> hnode option"
  bailed :: "nat \<Rightarrow> bool"
  host_kind :: "hnode \<Rightarrow> hkind option"
  host_kids :: "hnode \<Rightarrow> hnode list"
  host_parent :: "hnode \<Rightarrow> hnode option"
  host_text :: "hnode \<Rightarrow> string"
  host_props :: "hnode \<Rightarrow> string \<Rightarrow> jsval"
  next_node :: hnode
  ops :: "hostop list"
  warnings :: "warning list"

definition el_of :: "rstate \<Rightarrow> vnode \<Rightarrow> hnode option" where
  "el_of s v = vnode_el s (ident v)"

definition anchor_of :: "rstate \<Rightarrow> vnode \<Rightarrow> hnode option" where
  "anchor_of s v = vnode_anchor s (ident v)"

definition set_el :: "vnode \<Rightarrow> hnode option \<Rightarrow> rstate \<Rightarrow> rstate" where
  "set_el v h s = s\<lparr>vnode_el := (vnode_el s)(ident v := h)\<rparr>"

definition set_anchor :: "vnode \<Rightarrow> hnode option \<Rightarrow> rstate \<Rightarrow> rstate" where
  "set_anchor v h s = s\<lparr>vnode_anchor := (vnode_anchor s)(ident v := h)\<rparr>"

definition dynamicChildren_of :: "rstate \<Rightarrow> vnode \<Rightarrow> vnode list option" where
  "dynamicChildren_of s v = (if bailed s (ident v) then None else dynamicChildren v)"

definition log_op :: "hostop \<Rightarrow> rstate \<Rightarrow> rstate" where
  "log_op x s = s\<lparr>ops := ops s @ [x]\<rparr>"

text \<open>
  Modelled from the spec: the host operations (spec 6; \<^verbatim>\<open>nodeOps\<close> of the DOM runtime
  is not under \<^verbatim>\<open>src/\<close>). \<open>insert\<close> places a node before the anchor among the
  children of the parent, or last without an anchor, taking it out of the place it had;
  \<open>remove\<close> takes a node out of its parent. An anchor that is not a child of the parent
  is outside the contract of \<open>insert\<close>: the run ends there (\<open>None\<close>).
\<close>

definition detach :: "hnode \<Rightarrow> rstate \<Rightarrow> rstate" where
  "detach el s =
     (case host_parent s el of
        None \<Rightarrow> s
      | Some p \<Rightarrow> s\<lparr>host_kids := (host_kids s)(p := removeAll el (host_kids s p)),
                     host_parent := (host_parent s)(el := None)\<rparr>)"

fun insert_before :: "hnode \<Rightarrow> hnode option \<Rightarrow> hnode list \<Rightarrow> hnode list" where
  "insert_before el None ks = ks @ [el]"
| "insert_before el (Some a) ks = takeWhile (\<lambda>x. x \<noteq> a) ks @ el # dropWhile (\<lambda>x. x \<noteq> a) ks"

definition attach :: "hnode \<Rightarrow> hnode \<Rightarrow> hnode option \<Rightarrow> rstate \<Rightarrow> rstate" where
  "attach el parent anchor s =
     s\<lparr>host_kids := (host_kids s)(parent := insert_before el anchor (host_kids s parent)),
       host_parent := (host_parent s)(el := Some parent)\<rparr>"

definition hostInsert :: "hnode \<Rightarrow> hnode \<Rightarrow> hnode option \<Rightarrow> rstate \<Rightarrow> rstate option" where
  "hostInsert el parent anchor s =
     (let done = log_op (OpInsert el parent anchor (host_parent s el \<noteq> None)) in
      case anchor of
        None \<Rightarrow> Some (done (attach el parent None (detach el s)))
      | Some a \<Rightarrow>
          if a \<notin> set (host_kids s parent) then None
          else if a = el then Some (done s)
          else Some (done (attach el parent anchor (detach el s))))"

definition hostRemove :: "hnode \<Rightarrow> rstate \<Rightarrow> rstate" where
  "hostRemove el s = log_op (OpRemove el) (detach el s)"

definition new_node :: "hkind \<Rightarrow> string \<Rightarrow> rstate \<Rightarrow> rstate" where
  "new_node k t s =
     s\<lparr>host_kind := (host_kind s)(next_node s := Some k),
       host_kids := (host_kids s)(next_node s := []),
       host_parent := (host_parent s)(next_node s := None),
       host_text := (host_text s)(next_node s := t),
       host_props := (host_props s)(next_node s := (\<lambda>k. JUndefined)),
       next_node := Suc (next_node s)\<rparr>"

definition hostCreateElement :: "string \<Rightarrow> rstate \<Rightarrow> hnode \<times> rstate" where
  "hostCreateElement tag s =
     (next_node s, log_op (OpCreateElement (next_node s) tag) (new_node (HElement tag) [] s))"

definition hostCreateText :: "string \<Rightarrow> rstate \<Rightarrow> hnode \<times> rstate" where
  "hostCreateText t s = (next_node s, log_op (OpCreateText (next_node s) t) (new_node HText t s))"

definition hostCreateComment :: "string \<Rightarrow> rstate \<Rightarrow> hnode \<times> rstate" where
  "hostCreateComment t s =
     (next_node s, log_op (OpCreateComment (next_node s) t) (new_node HComment t s))"

definition hostSetText :: "hnode \<Rightarrow> string \<Rightarrow> rstate \<Rightarrow> rstate" where
  "hostSetText h t s = log_op (OpSetText h t) (s\<lparr>host_text := (host_text s)(h := t)\<rparr>)"

definition hostSetElementText :: "hnode \<Rightarrow> string \<Rightarrow> rstate \<Rightarrow> rstate" where
  "hostSetElementText h t s =
     log_op (OpSetElementText h t)
       (s\<lparr>host_text := (host_text s)(h := t),
          host_kids := (host_kids s)(h := []),
          host_parent := (\<lambda>x. if x \<in> set (host_kids s h) then None else host_parent s x)\<rparr>)"

definition hostPatchProp :: "hnode \<Rightarrow> string \<Rightarrow> jsval \<Rightarrow> jsval \<Rightarrow> rstate \<Rightarrow> rstate" where
  "hostPatchProp h k prev nxt s =
     log_op (OpPatchProp h k prev nxt)
       (s\<lparr>host_props := (host_props s)(h := (host_props s h)(k := nxt))\<rparr>)"

definition hostParentNode :: "rstate \<Rightarrow> hnode \<Rightarrow> hnode option" where
  "hostParentNode s h = host_parent s h"

definition next_after :: "hnode \<Rightarrow> hnode list \<Rightarrow> hnode option" where
  "next_after h ks = (case dropWhile (\<lambda>x. x \<noteq> h) ks of x # y # r \<Rightarrow> Some y | _ \<Rightarrow> None)"

definition hostNextSibling :: "rstate \<Rightarrow> hnode \<Rightarrow> hnode option" where
  "hostNextSibling s h =
     (case host_parent s h of None \<Rightarrow> None | Some p \<Rightarrow> next_after h (host_kids s p))"

section \<open>The renderer\<close>

text \<open>
  The functions of \<^verbatim>\<open>baseCreateRenderer\<close>, under their names. Every function takes the
  state and returns the new one; \<open>None\<close> is a run that returns no state: JavaScript
  raises a TypeError (a property of \<^verbatim>\<open>null\<close> or \<^verbatim>\<open>undefined\<close> is read, or a
  non-null assertion \<^verbatim>\<open>!\<close> or a cast \<^verbatim>\<open>as\<close> of the source does not hold), a loop does
  not end, or control passes to a collaborator that is not under \<^verbatim>\<open>src/\<close> (the component
  runtime, \<^verbatim>\<open>TeleportImpl\<close>, \<^verbatim>\<open>SuspenseImpl\<close>, \<^verbatim>\<open>insertStaticContent\<close>).
  The tree is patched outside any component
  (\<^verbatim>\<open>parentComponent\<close> and \<^verbatim>\<open>parentSuspense\<close> are null), and the nodes carry no template
  ref, directive, vnode hook, scope id or transition: these call user code and touch
  no host operation of the renderer, so the arguments \<^verbatim>\<open>parentComponent\<close>,
  \<^verbatim>\<open>parentSuspense\<close>, \<^verbatim>\<open>isSVG\<close>, \<^verbatim>\<open>slotScopeIds\<close> and \<^verbatim>\<open>moveType\<close> are left out.
\<close>

subsection \<open>Text and comment nodes\<close>

definition processText ::
  "vnode option \<Rightarrow> vnode \<Rightarrow> hnode \<Rightarrow> hnode option \<Rightarrow> rstate \<Rightarrow> rstate option" where
  "processText n1 n2 container anchor s =
     (case n1 of
        None \<Rightarrow>
          (case as_string (children n2) of
             None \<Rightarrow> None
           | Some t \<Rightarrow>
               (case hostCreateText t s of (h, s') \<Rightarrow>
                  hostInsert h container anchor (set_el n2 (Some h) s')))
      | Some o1 \<Rightarrow>
          (let s' = set_el n2 (el_of s o1) s in
           if children n2 \<noteq> children o1 then
             (case (el_of s o1, as_string (children n2)) of
                (Some el, Some t) \<Rightarrow> Some (hostSetText el t s')
              | _ \<Rightarrow> None)
           else Some s'))"

definition processCommentNode ::
  "vnode option \<Rightarrow> vnode \<Rightarrow> hnode \<Rightarrow> hnode option \<Rightarrow> rstate \<Rightarrow> rstate option" where
  "processCommentNode n1 n2 container anchor s =
     (case n1 of
        None \<Rightarrow>
          (case (case children n2 of NoChildren \<Rightarrow> Some [] | TextChildren t \<Rightarrow> Some t
                 | ArrayChildren cs \<Rightarrow> None) of
             None \<Rightarrow> None
           | Some t \<Rightarrow>
               (case hostCreateComment t s of (h, s') \<Rightarrow>
                  hostInsert h container anchor (set_el n2 (Some h) s')))
      | Some o1 \<Rightarrow> Some (set_el n2 (el_of s o1) s))"

subsection \<open>Props\<close>

text \<open>The loops of \<^verbatim>\<open>patchProps\<close> over the keys of the old and of the new props.\<close>

fun patchProps_removed ::
  "env \<Rightarrow> hnode \<Rightarrow> props_obj \<Rightarrow> props_obj \<Rightarrow> string list \<Rightarrow> rstate \<Rightarrow> rstate" where
  "patchProps_removed e el oldProps newProps [] s = s"
| "patchProps_removed e el oldProps newProps (k # ks) s =
     patchProps_removed e el oldProps newProps ks
       (if \<not> isReservedProp e k \<and> \<not> prop_in k newProps
        then hostPatchProp el k (prop_get oldProps k) JNull s else s)"

fun patchProps_changed ::
  "env \<Rightarrow> hnode \<Rightarrow> props_obj \<Rightarrow> props_obj \<Rightarrow> string list \<Rightarrow> rstate \<Rightarrow> rstate" where
  "patchProps_changed e el oldProps newProps [] s = s"
| "patchProps_changed e el oldProps newProps (k # ks) s =
     patchProps_changed e el oldProps newProps ks
       (if isReservedProp e k then s
        else if prop_get newProps k \<noteq> prop_get oldProps k \<and> k \<noteq> ''value''
        then hostPatchProp el k (prop_get oldProps k) (prop_get newProps k) s else s)"

definition patchProps :: "env \<Rightarrow> hnode \<Rightarrow> props_obj \<Rightarrow> props_obj \<Rightarrow> rstate \<Rightarrow> rstate" where
  "patchProps e el oldProps newProps s =
     (if obj_id oldProps \<noteq> obj_id newProps then
        (let s1 = (if obj_id oldProps \<noteq> obj_id EMPTY_OBJ
                   then patchProps_removed e el oldProps newProps (prop_keys oldProps) s else s);
             s2 = patchProps_changed e el oldProps newProps (prop_keys newProps) s1
         in if prop_in ''value'' newProps
            then hostPatchProp el ''value'' (prop_get oldProps ''value'') (prop_get newProps ''value'') s2
            else s2)
      else s)"

text \<open>The loop over \<^verbatim>\<open>n2.dynamicProps\<close> in \<^verbatim>\<open>patchElement\<close> (the \<^verbatim>\<open>PROPS\<close> flag).\<close>

fun patchElement_dynamicProps ::
  "hnode \<Rightarrow> props_obj \<Rightarrow> props_obj \<Rightarrow> string list \<Rightarrow> rstate \<Rightarrow> rstate" where
  "patchElement_dynamicProps el oldProps newProps [] s = s"
| "patchElement_dynamicProps el oldProps newProps (k # ks) s =
     patchElement_dynamicProps el oldProps newProps ks
       (if prop_get newProps k \<noteq> prop_get oldProps k \<or> k = ''value''
        then hostPatchProp el k (prop_get oldProps k) (prop_get newProps k) s else s)"

text \<open>
  The part of \<^verbatim>\<open>patchElement\<close> after the children: the props by patch flag, then the
  \<^verbatim>\<open>TEXT\<close> flag, or the full diff of the props when nothing is optimized.
  \<open>pf\<close> is the patch flag after \<^verbatim>\<open>patchFlag |= n1.patchFlag & FULL_PROPS\<close> and the
  hot-reload reset, \<open>dyn\<close> tells whether \<^verbatim>\<open>dynamicChildren\<close> is non-null.
\<close>

definition patchElement_props ::
  "env \<Rightarrow> vnode \<Rightarrow> vnode \<Rightarrow> hnode \<Rightarrow> int \<Rightarrow> bool \<Rightarrow> bool \<Rightarrow> rstate \<Rightarrow> rstate option" where
  "patchElement_props e n1 n2 el pf optimized dyn s =
     (let oldProps = (case props n1 of None \<Rightarrow> EMPTY_OBJ | Some ps \<Rightarrow> ps);
          newProps = (case props n2 of None \<Rightarrow> EMPTY_OBJ | Some ps \<Rightarrow> ps)
      in
      if pf > 0 then
        (case
           (if pf AND FULL_PROPS e \<noteq> 0 then Some (patchProps e el oldProps newProps s)
            else
              (let s1 = (if pf AND CLASS e \<noteq> 0 \<and> prop_get oldProps ''class'' \<noteq> prop_get newProps ''class''
                         then hostPatchProp el ''class'' JNull (prop_get newProps ''class'') s else s);
                   s2 = (if pf AND STYLE e \<noteq> 0
                         then hostPatchProp el ''style'' (prop_get oldProps ''style'') (prop_get newProps ''style'') s1
                         else s1)
               in if pf AND PROPS e \<noteq> 0 then
                    (case dynamicProps n2 of
                       None \<Rightarrow> None
                     | Some propsToUpdate \<Rightarrow> Some (patchElement_dynamicProps el oldProps newProps propsToUpdate s2))
                  else Some s2))
         of None \<Rightarrow> None
          | Some s3 \<Rightarrow>
              if pf AND TEXT e \<noteq> 0 \<and> children n1 \<noteq> children n2 then
                (case as_string (children n2) of
                   None \<Rightarrow> None
                 | Some t \<Rightarrow> Some (hostSetElementText el t s3))
              else Some s3)
      else if \<not> optimized \<and> \<not> dyn then Some (patchProps e el oldProps newProps s)
      else Some s)"


subsection \<open>Unmount, remove and move\<close>

text \<open>
  \<^verbatim>\<open>removeFragment\<close>: the loop
  \<^verbatim>\<open>while (cur !== end) { next = hostNextSibling(cur)!; hostRemove(cur); cur = next }\<close>
  and the final \<^verbatim>\<open>hostRemove(end)\<close>. When \<open>cur\<close> has no next sibling, the next pass
  reads the sibling of \<^verbatim>\<open>null\<close>.
\<close>

partial_function (option) removeFragment :: "hnode \<Rightarrow> hnode \<Rightarrow> rstate \<Rightarrow> rstate option" where
  "removeFragment cur endn s =
     (if cur \<noteq> endn then
        (case hostNextSibling s cur of
           None \<Rightarrow> None
         | Some nxt \<Rightarrow> removeFragment nxt endn (hostRemove cur s))
      else Some (hostRemove endn s))"

text \<open>\<^verbatim>\<open>removeStaticNode\<close> and \<^verbatim>\<open>moveStaticNode\<close>, each a loop and a final operation.\<close>

partial_function (option) removeStaticNode_loop ::
  "hnode option \<Rightarrow> hnode option \<Rightarrow> rstate \<Rightarrow> rstate option" where
  "removeStaticNode_loop el anchor s =
     (case el of
        Some e \<Rightarrow>
          if el \<noteq> anchor then removeStaticNode_loop (hostNextSibling s e) anchor (hostRemove e s)
          else (case anchor of None \<Rightarrow> None | Some a \<Rightarrow> Some (hostRemove a s))
      | None \<Rightarrow> (case anchor of None \<Rightarrow> None | Some a \<Rightarrow> Some (hostRemove a s)))"

definition removeStaticNode :: "vnode \<Rightarrow> rstate \<Rightarrow> rstate option" where
  "removeStaticNode v s = removeStaticNode_loop (el_of s v) (anchor_of s v) s"

partial_function (option) moveStaticNode_loop ::
  "hnode option \<Rightarrow> hnode option \<Rightarrow> hnode \<Rightarrow> hnode option \<Rightarrow> rstate \<Rightarrow> rstate option" where
  "moveStaticNode_loop el anchor container nextSibling s =
     (case el of
        Some e \<Rightarrow>
          if el \<noteq> anchor then
            (case hostInsert e container nextSibling s of
               None \<Rightarrow> None
             | Some s' \<Rightarrow> moveStaticNode_loop (hostNextSibling s e) anchor container nextSibling s')
          else (case anchor of None \<Rightarrow> None | Some a \<Rightarrow> hostInsert a container nextSibling s)
      | None \<Rightarrow> (case anchor of None \<Rightarrow> None | Some a \<Rightarrow> hostInsert a container nextSibling s))"

definition moveStaticNode :: "vnode \<Rightarrow> hnode \<Rightarrow> hnode option \<Rightarrow> rstate \<Rightarrow> rstate option" where
  "moveStaticNode v container nextSibling s =
     moveStaticNode_loop (el_of s v) (anchor_of s v) container nextSibling s"

definition remove :: "vnode \<Rightarrow> rstate \<Rightarrow> rstate option" where
  "remove v s =
     (if vtype v = Fragment then
        (case (el_of s v, anchor_of s v) of
           (Some el, Some anchor) \<Rightarrow> removeFragment el anchor s
         | _ \<Rightarrow> None)
      else if vtype v = Static then removeStaticNode v s
      else (case el_of s v of None \<Rightarrow> None | Some el \<Rightarrow> Some (hostRemove el s)))"

lemma size_dynamicChildren_of [termination_simp]:
  "dynamicChildren_of s v = Some ds \<Longrightarrow> size_list size ds < size v"
  by (cases v) (auto simp: dynamicChildren_of_def split: if_splits)

lemma size_as_array_children [termination_simp]:
  "as_array (children v) = Some cs \<Longrightarrow> size_list size cs < size v"
  by (cases v) (auto simp: as_array_def split: vchildren.splits)

lemma size_array_children [termination_simp]:
  "children v = ArrayChildren cs \<Longrightarrow> size_list size cs < size v"
  by (cases v) auto

lemma size_component_subTree [termination_simp]:
  "component v = SubTree t \<Longrightarrow> size t < size v"
  by (cases v) auto

text \<open>
  \<^verbatim>\<open>unmount\<close> with \<^verbatim>\<open>unmountComponent\<close> and \<^verbatim>\<open>unmountChildren\<close>
  (its \<^verbatim>\<open>start\<close> is taken by the caller with \<open>drop\<close>). Of \<^verbatim>\<open>unmountComponent\<close> the
  model keeps the unmounting of the sub-tree, which happens when \<^verbatim>\<open>update\<close> is set.
\<close>

function unmount :: "env \<Rightarrow> vnode \<Rightarrow> bool \<Rightarrow> bool \<Rightarrow> rstate \<Rightarrow> rstate option"
  and unmountChildren :: "env \<Rightarrow> vnode list \<Rightarrow> bool \<Rightarrow> bool \<Rightarrow> rstate \<Rightarrow> rstate option" where
  "unmount e v doRemove optimized s =
     (if is_COMPONENT v then
        (case component v of
           NoInstance \<Rightarrow> None
         | Unresolved \<Rightarrow> Some s
         | SubTree t \<Rightarrow> unmount e t doRemove False s)
      else if is_SUSPENSE v then None
      else
        (case
           (if is_TELEPORT v then None
            else
              (case dynamicChildren_of s v of
                 Some ds \<Rightarrow>
                   if vtype v \<noteq> Fragment \<or> (patchFlag v > 0 \<and> patchFlag v AND STABLE_FRAGMENT e \<noteq> 0)
                   then unmountChildren e ds False True s
                   else if (vtype v = Fragment \<and>
                            patchFlag v AND (KEYED_FRAGMENT e OR UNKEYED_FRAGMENT e) \<noteq> 0) \<or>
                           (\<not> optimized \<and> is_ARRAY_CHILDREN v)
                   then (case as_array (children v) of
                           None \<Rightarrow> None
                         | Some cs \<Rightarrow> unmountChildren e cs False False s)
                   else Some s
               | None \<Rightarrow>
                   if (vtype v = Fragment \<and>
                       patchFlag v AND (KEYED_FRAGMENT e OR UNKEYED_FRAGMENT e) \<noteq> 0) \<or>
                      (\<not> optimized \<and> is_ARRAY_CHILDREN v)
                   then (case as_array (children v) of
                           None \<Rightarrow> None
                         | Some cs \<Rightarrow> unmountChildren e cs False False s)
                   else Some s))
         of None \<Rightarrow> None
          | Some s' \<Rightarrow> if doRemove then remove v s' else Some s'))"
| "unmountChildren e [] doRemove optimized s = Some s"
| "unmountChildren e (c # cs) doRemove optimized s =
     (case unmount e c doRemove optimized s of
        None \<Rightarrow> None
      | Some s' \<Rightarrow> unmountChildren e cs doRemove optimized s')"
  by pat_completeness auto
termination
  by (relation "measure (\<lambda>x. case x of Inl (e, v, r) \<Rightarrow> size v | Inr (e, cs, r) \<Rightarrow> size_list size cs)")
     (auto simp: termination_simp)

declare unmount.simps [simp del]

text \<open>\<^verbatim>\<open>move\<close>, with the loop over the children of a fragment.\<close>

function move :: "vnode \<Rightarrow> hnode \<Rightarrow> hnode option \<Rightarrow> rstate \<Rightarrow> rstate option"
  and move_children :: "vnode list \<Rightarrow> hnode \<Rightarrow> hnode option \<Rightarrow> rstate \<Rightarrow> rstate option" where
  "move v container anchor s =
     (if is_COMPONENT v then
        (case component v of SubTree t \<Rightarrow> move t container anchor s | _ \<Rightarrow> None)
      else if is_SUSPENSE v then None
      else if is_TELEPORT v then None
      else if vtype v = Fragment then
        (case (el_of s v, as_array (children v)) of
           (Some el, Some cs) \<Rightarrow>
             (case hostInsert el container anchor s of
                None \<Rightarrow> None
              | Some s1 \<Rightarrow>
                  (case move_children cs container anchor s1 of
                     None \<Rightarrow> None
                   | Some s2 \<Rightarrow>
                       (case anchor_of s2 v of
                          None \<Rightarrow> None
                        | Some a \<Rightarrow> hostInsert a container anchor s2)))
         | _ \<Rightarrow> None)
      else if vtype v = Static then moveStaticNode v container anchor s
      else (case el_of s v of None \<Rightarrow> None | Some el \<Rightarrow> hostInsert el container anchor s))"
| "move_children [] container anchor s = Some s"
| "move_children (c # cs) container anchor s =
     (case move c container anchor s of
        None \<Rightarrow> None
      | Some s' \<Rightarrow> move_children cs container anchor s')"
  by pat_completeness auto
termination
  by (relation "measure (\<lambda>x. case x of Inl (v, r) \<Rightarrow> size v | Inr (cs, r) \<Rightarrow> size_list size cs)")
     (auto simp: termination_simp)

declare move.simps [simp del]

text \<open>\<^verbatim>\<open>getNextHostNode\<close>; the inner option is the node or \<^verbatim>\<open>null\<close>.\<close>

function getNextHostNode :: "rstate \<Rightarrow> vnode \<Rightarrow> hnode option option" where
  "getNextHostNode s v =
     (if is_COMPONENT v then
        (case component v of SubTree t \<Rightarrow> getNextHostNode s t | _ \<Rightarrow> None)
      else if is_SUSPENSE v then None
      else
        (case (case anchor_of s v of Some a \<Rightarrow> Some a | None \<Rightarrow> el_of s v) of
           None \<Rightarrow> None
         | Some h \<Rightarrow> Some (hostNextSibling s h)))"
  by pat_completeness auto
termination
  by (relation "measure (\<lambda>(s, v). size v)") (auto simp: termination_simp)

declare getNextHostNode.simps [simp del]

subsection \<open>Children\<close>

text \<open>
  The functions below call \<^verbatim>\<open>patch\<close> on the children; they take it as the argument
  \<open>P\<close>, and \<open>patch\<close> itself, defined last, passes itself.
  Modelled from the spec: \<^verbatim>\<open>normalizeVNode\<close> and \<^verbatim>\<open>cloneIfMounted\<close> (\<^verbatim>\<open>vnode.ts\<close>) are
  not under \<^verbatim>\<open>src/\<close>; children are an ordered list of virtual nodes (spec 3) that no
  earlier pass has mounted, on which both return their argument.
\<close>

type_synonym patchfn =
  "vnode option \<Rightarrow> vnode \<Rightarrow> hnode \<Rightarrow> hnode option \<Rightarrow> bool \<Rightarrow> rstate \<Rightarrow> rstate option"

text \<open>An array read \<^verbatim>\<open>c[i]\<close>: \<open>None\<close> is \<^verbatim>\<open>undefined\<close>.\<close>

definition js_nth :: "'a list \<Rightarrow> int \<Rightarrow> 'a option" where
  "js_nth xs i = (if 0 \<le> i \<and> i < int (length xs) then Some (xs ! nat i) else None)"

text \<open>\<^verbatim>\<open>mountChildren\<close>, on the children from \<^verbatim>\<open>start\<close> on.\<close>

fun mountChildren ::
  "patchfn \<Rightarrow> vnode list \<Rightarrow> hnode \<Rightarrow> hnode option \<Rightarrow> bool \<Rightarrow> rstate \<Rightarrow> rstate option" where
  "mountChildren P [] container anchor optimized s = Some s"
| "mountChildren P (c # cs) container anchor optimized s =
     (case P None c container anchor optimized s of
        None \<Rightarrow> None
      | Some s' \<Rightarrow> mountChildren P cs container anchor optimized s')"

text \<open>
  \<^verbatim>\<open>patchBlockChildren\<close>: the loop runs over the new children; an old list that is
  shorter gives \<^verbatim>\<open>undefined\<close>, whose \<^verbatim>\<open>el\<close> is read.
\<close>

fun patchBlockChildren ::
  "patchfn \<Rightarrow> vnode list \<Rightarrow> vnode list \<Rightarrow> hnode \<Rightarrow> rstate \<Rightarrow> rstate option" where
  "patchBlockChildren P oldChildren [] fallbackContainer s = Some s"
| "patchBlockChildren P [] (newVNode # ns) fallbackContainer s = None"
| "patchBlockChildren P (oldVNode # os) (newVNode # ns) fallbackContainer s =
     (case
        (case el_of s oldVNode of
           Some oel \<Rightarrow>
             if vtype oldVNode = Fragment \<or> \<not> isSameVNodeType oldVNode newVNode \<or>
                is_COMPONENT oldVNode \<or> is_TELEPORT oldVNode
             then hostParentNode s oel
             else Some fallbackContainer
         | None \<Rightarrow> Some fallbackContainer)
      of None \<Rightarrow> None
       | Some container \<Rightarrow>
           (case P (Some oldVNode) newVNode container None True s of
              None \<Rightarrow> None
            | Some s' \<Rightarrow> patchBlockChildren P os ns fallbackContainer s'))"

text \<open>\<^verbatim>\<open>patchUnkeyedChildren\<close>: the loop over the common length, then the rest.\<close>

fun patchUnkeyedChildren_common ::
  "patchfn \<Rightarrow> vnode list \<Rightarrow> vnode list \<Rightarrow> hnode \<Rightarrow> bool \<Rightarrow> rstate \<Rightarrow> rstate option" where
  "patchUnkeyedChildren_common P (o1 # os) (nextChild # ns) container optimized s =
     (case P (Some o1) nextChild container None optimized s of
        None \<Rightarrow> None
      | Some s' \<Rightarrow> patchUnkeyedChildren_common P os ns container optimized s')"
| "patchUnkeyedChildren_common P c1 c2 container optimized s = Some s"

definition patchUnkeyedChildren ::
  "env \<Rightarrow> patchfn \<Rightarrow> vnode list \<Rightarrow> vnode list \<Rightarrow> hnode \<Rightarrow> hnode option \<Rightarrow> bool \<Rightarrow> rstate \<Rightarrow>
   rstate option" where
  "patchUnkeyedChildren e P c1 c2 container anchor optimized s =
     (let oldLength = length c1; newLength = length c2; commonLength = min oldLength newLength in
      case patchUnkeyedChildren_common P c1 c2 container optimized s of
        None \<Rightarrow> None
      | Some s' \<Rightarrow>
          if oldLength > newLength then unmountChildren e (drop commonLength c1) True False s'
          else mountChildren P (drop commonLength c2) container anchor optimized s')"

subsection \<open>patchKeyedChildren\<close>

text \<open>1. sync from start: the loop returns the final \<open>i\<close>.\<close>

function patchKeyedChildren_start ::
  "patchfn \<Rightarrow> vnode list \<Rightarrow> vnode list \<Rightarrow> hnode \<Rightarrow> bool \<Rightarrow> int \<Rightarrow> int \<Rightarrow> int \<Rightarrow> rstate \<Rightarrow>
   (int \<times> rstate) option" where
  "patchKeyedChildren_start P c1 c2 container optimized i e1 e2 s =
     (if i \<le> e1 \<and> i \<le> e2 then
        (case (js_nth c1 i, js_nth c2 i) of
           (Some n1, Some n2) \<Rightarrow>
             if isSameVNodeType n1 n2 then
               (case P (Some n1) n2 container None optimized s of
                  None \<Rightarrow> None
                | Some s' \<Rightarrow> patchKeyedChildren_start P c1 c2 container optimized (i + 1) e1 e2 s')
             else Some (i, s)
         | _ \<Rightarrow> None)
      else Some (i, s))"
  by pat_completeness auto
termination
  by (relation "measure (\<lambda>(P, c1, c2, container, optimized, i, e1, e2, s). nat (e1 + 1 - i))") auto

declare patchKeyedChildren_start.simps [simp del]

text \<open>2. sync from end: the loop returns the final \<open>e1\<close> and \<open>e2\<close>.\<close>

function patchKeyedChildren_end ::
  "patchfn \<Rightarrow> vnode list \<Rightarrow> vnode list \<Rightarrow> hnode \<Rightarrow> bool \<Rightarrow> int \<Rightarrow> int \<Rightarrow> int \<Rightarrow> rstate \<Rightarrow>
   (int \<times> int \<times> rstate) option" where
  "patchKeyedChildren_end P c1 c2 container optimized i e1 e2 s =
     (if i \<le> e1 \<and> i \<le> e2 then
        (case (js_nth c1 e1, js_nth c2 e2) of
           (Some n1, Some n2) \<Rightarrow>
             if isSameVNodeType n1 n2 then
               (case P (Some n1) n2 container None optimized s of
                  None \<Rightarrow> None
                | Some s' \<Rightarrow> patchKeyedChildren_end P c1 c2 container optimized i (e1 - 1) (e2 - 1) s')
             else Some (e1, e2, s)
         | _ \<Rightarrow> None)
      else Some (e1, e2, s))"
  by pat_completeness auto
termination
  by (relation "measure (\<lambda>(P, c1, c2, container, optimized, i, e1, e2, s). nat (e1 + 1 - i))") auto

declare patchKeyedChildren_end.simps [simp del]

text \<open>3. common sequence + mount: \<^verbatim>\<open>while (i <= e2) { patch(null, c2[i], ...); i++ }\<close>.\<close>

function patchKeyedChildren_mount ::
  "patchfn \<Rightarrow> vnode list \<Rightarrow> hnode \<Rightarrow> hnode option \<Rightarrow> bool \<Rightarrow> int \<Rightarrow> int \<Rightarrow> rstate \<Rightarrow> rstate option" where
  "patchKeyedChildren_mount P c2 container anchor optimized i e2 s =
     (if i \<le> e2 then
        (case js_nth c2 i of
           None \<Rightarrow> None
         | Some n2 \<Rightarrow>
             (case P None n2 container anchor optimized s of
                None \<Rightarrow> None
              | Some s' \<Rightarrow> patchKeyedChildren_mount P c2 container anchor optimized (i + 1) e2 s'))
      else Some s)"
  by pat_completeness auto
termination
  by (relation "measure (\<lambda>(P, c2, container, anchor, optimized, i, e2, s). nat (e2 + 1 - i))") auto

declare patchKeyedChildren_mount.simps [simp del]

text \<open>4. common sequence + unmount: \<^verbatim>\<open>while (i <= e1) { unmount(c1[i], ..., true); i++ }\<close>.\<close>

function patchKeyedChildren_unmount ::
  "env \<Rightarrow> vnode list \<Rightarrow> int \<Rightarrow> int \<Rightarrow> rstate \<Rightarrow> rstate option" where
  "patchKeyedChildren_unmount e c1 i e1 s =
     (if i \<le> e1 then
        (case js_nth c1 i of
           None \<Rightarrow> None
         | Some n1 \<Rightarrow>
             (case unmount e n1 True False s of
                None \<Rightarrow> None
              | Some s' \<Rightarrow> patchKeyedChildren_unmount e c1 (i + 1) e1 s'))
      else Some s)"
  by pat_completeness auto
termination
  by (relation "measure (\<lambda>(e, c1, i, e1, s). nat (e1 + 1 - i))") auto

declare patchKeyedChildren_unmount.simps [simp del]

text \<open>
  5.1 build the key:index map for the new children, with the warning of the
  development build for a key that the map already has.
\<close>

function patchKeyedChildren_keys ::
  "env \<Rightarrow> vnode list \<Rightarrow> int \<Rightarrow> int \<Rightarrow> (vkey \<Rightarrow> int option) \<Rightarrow> rstate \<Rightarrow>
   ((vkey \<Rightarrow> int option) \<times> rstate) option" where
  "patchKeyedChildren_keys e c2 i e2 keyToNewIndexMap s =
     (if i \<le> e2 then
        (case js_nth c2 i of
           None \<Rightarrow> None
         | Some nextChild \<Rightarrow>
             (case key nextChild of
                Some k \<Rightarrow>
                  patchKeyedChildren_keys e c2 (i + 1) e2 (keyToNewIndexMap(k \<mapsto> i))
                    (if DEV e \<and> keyToNewIndexMap k \<noteq> None
                     then s\<lparr>warnings := warnings s @ [DuplicateKeys k]\<rparr> else s)
              | None \<Rightarrow> patchKeyedChildren_keys e c2 (i + 1) e2 keyToNewIndexMap s))
      else Some (keyToNewIndexMap, s))"
  by pat_completeness auto
termination
  by (relation "measure (\<lambda>(e, c2, i, e2, m, s). nat (e2 + 1 - i))") auto

declare patchKeyedChildren_keys.simps [simp del]

text \<open>
  5.2 the search of a key-less old node for a key-less new node of the same type that
  no old node has taken: \<open>Some None\<close> is \<^verbatim>\<open>newIndex === undefined\<close>.
\<close>

function patchKeyedChildren_keyless ::
  "vnode list \<Rightarrow> vnode \<Rightarrow> nat list \<Rightarrow> int \<Rightarrow> int \<Rightarrow> int \<Rightarrow> int option option" where
  "patchKeyedChildren_keyless c2 prevChild newIndexToOldIndexMap j s2 e2 =
     (if j \<le> e2 then
        (case js_nth c2 j of
           None \<Rightarrow> (if js_nth newIndexToOldIndexMap (j - s2) = Some 0 then None
                    else patchKeyedChildren_keyless c2 prevChild newIndexToOldIndexMap (j + 1) s2 e2)
         | Some n2 \<Rightarrow>
             if js_nth newIndexToOldIndexMap (j - s2) = Some 0 \<and> isSameVNodeType prevChild n2
             then Some (Some j)
             else patchKeyedChildren_keyless c2 prevChild newIndexToOldIndexMap (j + 1) s2 e2)
      else Some None)"
  by pat_completeness auto
termination
  by (relation "measure (\<lambda>(c2, prevChild, m, j, s2, e2). nat (e2 + 1 - j))") auto

declare patchKeyedChildren_keyless.simps [simp del]

text \<open>
  5.2 loop through the old children left to be patched: patch the matching nodes and
  remove the nodes that are no longer present. The variables of the loop are
  \<open>patched\<close>, \<open>moved\<close>, \<open>maxNewIndexSoFar\<close>, \<open>newIndexToOldIndexMap\<close> and the state;
  \<open>patchKeyedChildren_old_pass\<close> is one pass of the loop body at index \<open>i\<close>. The
  key:index map only holds indices of the new range, so the write
  \<^verbatim>\<open>newIndexToOldIndexMap[newIndex - s2] = i + 1\<close> is within the array.
\<close>

type_synonym old_loop = "int \<times> bool \<times> int \<times> nat list \<times> rstate"

definition patchKeyedChildren_old_pass ::
  "env \<Rightarrow> patchfn \<Rightarrow> vnode list \<Rightarrow> vnode list \<Rightarrow> hnode \<Rightarrow> bool \<Rightarrow> (vkey \<Rightarrow> int option) \<Rightarrow>
   int \<Rightarrow> int \<Rightarrow> int \<Rightarrow> int \<Rightarrow> old_loop \<Rightarrow> old_loop option" where
  "patchKeyedChildren_old_pass e P c1 c2 container optimized keyToNewIndexMap s2 e2 toBePatched i st =
     (case st of (patched, moved, maxNewIndexSoFar, newIndexToOldIndexMap, s) \<Rightarrow>
      case js_nth c1 i of
        None \<Rightarrow> None
      | Some prevChild \<Rightarrow>
          if patched \<ge> toBePatched then
            (case unmount e prevChild True False s of
               None \<Rightarrow> None
             | Some s' \<Rightarrow> Some (patched, moved, maxNewIndexSoFar, newIndexToOldIndexMap, s'))
          else
            (case (case key prevChild of
                     Some k \<Rightarrow> Some (keyToNewIndexMap k)
                   | None \<Rightarrow> patchKeyedChildren_keyless c2 prevChild newIndexToOldIndexMap s2 s2 e2)
             of None \<Rightarrow> None
              | Some None \<Rightarrow>
                  (case unmount e prevChild True False s of
                     None \<Rightarrow> None
                   | Some s' \<Rightarrow> Some (patched, moved, maxNewIndexSoFar, newIndexToOldIndexMap, s'))
              | Some (Some newIndex) \<Rightarrow>
                  (case js_nth newIndexToOldIndexMap (newIndex - s2) of
                     None \<Rightarrow> None
                   | Some old_entry \<Rightarrow>
                       (case js_nth c2 newIndex of
                          None \<Rightarrow> None
                        | Some n2 \<Rightarrow>
                            (case P (Some prevChild) n2 container None optimized s of
                               None \<Rightarrow> None
                             | Some s' \<Rightarrow>
                                 Some (patched + 1,
                                       (if newIndex \<ge> maxNewIndexSoFar then moved else True),
                                       (if newIndex \<ge> maxNewIndexSoFar then newIndex
                                        else maxNewIndexSoFar),
                                       newIndexToOldIndexMap[nat (newIndex - s2) := nat (i + 1)],
                                       s'))))))"

function patchKeyedChildren_old ::
  "env \<Rightarrow> patchfn \<Rightarrow> vnode list \<Rightarrow> vnode list \<Rightarrow> hnode \<Rightarrow> bool \<Rightarrow> (vkey \<Rightarrow> int option) \<Rightarrow>
   int \<Rightarrow> int \<Rightarrow> int \<Rightarrow> int \<Rightarrow> int \<Rightarrow> old_loop \<Rightarrow> old_loop option" where
  "patchKeyedChildren_old e P c1 c2 container optimized keyToNewIndexMap s2 e2 toBePatched i e1 st =
     (if i \<le> e1 then
        (case patchKeyedChildren_old_pass e P c1 c2 container optimized keyToNewIndexMap s2 e2
                toBePatched i st of
           None \<Rightarrow> None
         | Some st' \<Rightarrow>
             patchKeyedChildren_old e P c1 c2 container optimized keyToNewIndexMap s2 e2 toBePatched
               (i + 1) e1 st')
      else Some st)"
  by pat_completeness auto
termination
  by (relation "measure (\<lambda>(e, P, c1, c2, container, optimized, m, s2, e2, toBePatched, i, e1, st).
        nat (e1 + 1 - i))") auto

declare patchKeyedChildren_old.simps [simp del]

text \<open>
  5.3 move and mount, looping backwards over the new range so that the node patched
  last is the anchor. The variables of the loop are \<open>j\<close> and the state;
  \<open>patchKeyedChildren_move_pass\<close> is one pass of the loop body at index \<open>i\<close>.
\<close>

definition patchKeyedChildren_move_pass ::
  "patchfn \<Rightarrow> vnode list \<Rightarrow> hnode \<Rightarrow> hnode option \<Rightarrow> bool \<Rightarrow> int \<Rightarrow> int \<Rightarrow> bool \<Rightarrow> nat list \<Rightarrow>
   nat list \<Rightarrow> int \<Rightarrow> int \<times> rstate \<Rightarrow> (int \<times> rstate) option" where
  "patchKeyedChildren_move_pass P c2 container parentAnchor optimized s2 l2 moved newIndexToOldIndexMap
       increasingNewIndexSequence i st =
     (case st of (j, s) \<Rightarrow>
      let nextIndex = s2 + i in
      case js_nth c2 nextIndex of
        None \<Rightarrow> None
      | Some nextChild \<Rightarrow>
          (case (if nextIndex + 1 < l2
                 then (case js_nth c2 (nextIndex + 1) of None \<Rightarrow> None | Some v \<Rightarrow> Some (el_of s v))
                 else Some parentAnchor)
           of None \<Rightarrow> None
            | Some anchor \<Rightarrow>
                if js_nth newIndexToOldIndexMap i = Some 0 then
                  (case P None nextChild container anchor optimized s of
                     None \<Rightarrow> None
                   | Some s' \<Rightarrow> Some (j, s'))
                else if moved then
                  (if j < 0 \<or> js_nth increasingNewIndexSequence j \<noteq> Some (nat i) then
                     (case move nextChild container anchor s of
                        None \<Rightarrow> None
                      | Some s' \<Rightarrow> Some (j, s'))
                   else Some (j - 1, s))
                else Some (j, s)))"

function patchKeyedChildren_move ::
  "patchfn \<Rightarrow> vnode list \<Rightarrow> hnode \<Rightarrow> hnode option \<Rightarrow> bool \<Rightarrow> int \<Rightarrow> int \<Rightarrow> bool \<Rightarrow> nat list \<Rightarrow>
   nat list \<Rightarrow> int \<Rightarrow> int \<times> rstate \<Rightarrow> (int \<times> rstate) option" where
  "patchKeyedChildren_move P c2 container parentAnchor optimized s2 l2 moved newIndexToOldIndexMap
       increasingNewIndexSequence i st =
     (if i \<ge> 0 then
        (case patchKeyedChildren_move_pass P c2 container parentAnchor optimized s2 l2 moved
                newIndexToOldIndexMap increasingNewIndexSequence i st of
           None \<Rightarrow> None
         | Some st' \<Rightarrow>
             patchKeyedChildren_move P c2 container parentAnchor optimized s2 l2 moved
               newIndexToOldIndexMap increasingNewIndexSequence (i - 1) st')
      else Some st)"
  by pat_completeness auto
termination
  by (relation "measure (\<lambda>(P, c2, container, parentAnchor, optimized, s2, l2, moved, m, sq, i, st).
        nat (i + 1))") auto

declare patchKeyedChildren_move.simps [simp del]

text \<open>\<^verbatim>\<open>patchKeyedChildren\<close>: the five steps.\<close>

definition patchKeyedChildren ::
  "env \<Rightarrow> patchfn \<Rightarrow> vnode list \<Rightarrow> vnode list \<Rightarrow> hnode \<Rightarrow> hnode option \<Rightarrow> bool \<Rightarrow> rstate \<Rightarrow>
   rstate option" where
  "patchKeyedChildren e P c1 c2 container parentAnchor optimized s =
     (let l2 = int (length c2); e1 = int (length c1) - 1; e2 = l2 - 1 in
      case patchKeyedChildren_start P c1 c2 container optimized 0 e1 e2 s of
        None \<Rightarrow> None
      | Some (i, sa) \<Rightarrow>
          (case patchKeyedChildren_end P c1 c2 container optimized i e1 e2 sa of
             None \<Rightarrow> None
           | Some (e1, e2, sb) \<Rightarrow>
               if i > e1 then
                 (if i \<le> e2 then
                    (let nextPos = e2 + 1 in
                     case (if nextPos < l2
                           then (case js_nth c2 nextPos of None \<Rightarrow> None | Some v \<Rightarrow> Some (el_of sb v))
                           else Some parentAnchor)
                     of None \<Rightarrow> None
                      | Some anchor \<Rightarrow> patchKeyedChildren_mount P c2 container anchor optimized i e2 sb)
                  else Some sb)
               else if i > e2 then patchKeyedChildren_unmount e c1 i e1 sb
               else
                 (let s1 = i; s2 = i in
                  case patchKeyedChildren_keys e c2 s2 e2 Map.empty sb of
                    None \<Rightarrow> None
                  | Some (keyToNewIndexMap, sc) \<Rightarrow>
                      (let toBePatched = e2 - s2 + 1 in
                       case patchKeyedChildren_old e P c1 c2 container optimized keyToNewIndexMap
                              s2 e2 toBePatched s1 e1
                              (0, False, 0, replicate (nat toBePatched) 0, sc) of
                         None \<Rightarrow> None
                       | Some (patched, moved, maxNewIndexSoFar, newIndexToOldIndexMap, sd) \<Rightarrow>
                           (case (if moved then getSequence newIndexToOldIndexMap else Some []) of
                              None \<Rightarrow> None
                            | Some increasingNewIndexSequence \<Rightarrow>
                                (case patchKeyedChildren_move P c2 container parentAnchor optimized
                                        s2 l2 moved newIndexToOldIndexMap increasingNewIndexSequence
                                        (toBePatched - 1)
                                        (int (length increasingNewIndexSequence) - 1, sd) of
                                   None \<Rightarrow> None
                                 | Some (j, se) \<Rightarrow> Some se))))))"

subsection \<open>patchChildren and the element\<close>

text \<open>\<^verbatim>\<open>c1 = c1 || EMPTY_ARR\<close> of \<^verbatim>\<open>patchUnkeyedChildren\<close>, on children cast to an array.\<close>

definition or_EMPTY_ARR :: "vchildren \<Rightarrow> vnode list option" where
  "or_EMPTY_ARR c =
     (case c of NoChildren \<Rightarrow> Some [] | TextChildren t \<Rightarrow> (if t = [] then Some [] else None)
      | ArrayChildren cs \<Rightarrow> Some cs)"

definition patchChildren ::
  "env \<Rightarrow> patchfn \<Rightarrow> vnode option \<Rightarrow> vnode \<Rightarrow> hnode \<Rightarrow> hnode option \<Rightarrow> bool \<Rightarrow> rstate \<Rightarrow>
   rstate option" where
  "patchChildren e P n1 n2 container anchor optimized s =
     (let c1 = (case n1 of None \<Rightarrow> NoChildren | Some o1 \<Rightarrow> children o1);
          prevARRAY = (case n1 of None \<Rightarrow> False | Some o1 \<Rightarrow> is_ARRAY_CHILDREN o1);
          prevTEXT = (case n1 of None \<Rightarrow> False | Some o1 \<Rightarrow> is_TEXT_CHILDREN o1);
          c2 = children n2
      in
      if patchFlag n2 > 0 \<and> patchFlag n2 AND KEYED_FRAGMENT e \<noteq> 0 then
        (case (as_array c1, as_array c2) of
           (Some a1, Some a2) \<Rightarrow> patchKeyedChildren e P a1 a2 container anchor optimized s
         | _ \<Rightarrow> None)
      else if patchFlag n2 > 0 \<and> patchFlag n2 AND UNKEYED_FRAGMENT e \<noteq> 0 then
        (case (or_EMPTY_ARR c1, or_EMPTY_ARR c2) of
           (Some a1, Some a2) \<Rightarrow> patchUnkeyedChildren e P a1 a2 container anchor optimized s
         | _ \<Rightarrow> None)
      else if is_TEXT_CHILDREN n2 then
        (case (if prevARRAY
               then (case as_array c1 of None \<Rightarrow> None | Some a1 \<Rightarrow> unmountChildren e a1 False False s)
               else Some s)
         of None \<Rightarrow> None
          | Some s' \<Rightarrow>
              if c2 \<noteq> c1 then
                (case as_string c2 of None \<Rightarrow> None | Some t \<Rightarrow> Some (hostSetElementText container t s'))
              else Some s')
      else if prevARRAY then
        (case as_array c1 of
           None \<Rightarrow> None
         | Some a1 \<Rightarrow>
             if is_ARRAY_CHILDREN n2 then
               (case as_array c2 of
                  None \<Rightarrow> None
                | Some a2 \<Rightarrow> patchKeyedChildren e P a1 a2 container anchor optimized s)
             else unmountChildren e a1 True False s)
      else
        (let s' = (if prevTEXT then hostSetElementText container [] s else s) in
         if is_ARRAY_CHILDREN n2 then
           (case as_array c2 of
              None \<Rightarrow> None
            | Some a2 \<Rightarrow> mountChildren P a2 container anchor optimized s')
         else Some s'))"

text \<open>The loop of \<^verbatim>\<open>mountElement\<close> over the props, \<^verbatim>\<open>value\<close> apart.\<close>

fun mountElement_props :: "env \<Rightarrow> hnode \<Rightarrow> props_obj \<Rightarrow> string list \<Rightarrow> rstate \<Rightarrow> rstate" where
  "mountElement_props e el ps [] s = s"
| "mountElement_props e el ps (k # ks) s =
     mountElement_props e el ps ks
       (if k \<noteq> ''value'' \<and> \<not> isReservedProp e k
        then hostPatchProp el k JNull (prop_get ps k) s else s)"

definition mountElement ::
  "env \<Rightarrow> patchfn \<Rightarrow> vnode \<Rightarrow> hnode \<Rightarrow> hnode option \<Rightarrow> bool \<Rightarrow> rstate \<Rightarrow> rstate option" where
  "mountElement e P vnode container anchor optimized s =
     (case vtype vnode of
        Element tag \<Rightarrow>
          (case hostCreateElement tag s of (el, s0) \<Rightarrow>
             (case
                (case children vnode of
                   TextChildren t \<Rightarrow> Some (hostSetElementText el t (set_el vnode (Some el) s0))
                 | ArrayChildren cs \<Rightarrow> mountChildren P cs el None optimized (set_el vnode (Some el) s0)
                 | NoChildren \<Rightarrow> Some (set_el vnode (Some el) s0))
              of None \<Rightarrow> None
               | Some s1 \<Rightarrow>
                   hostInsert el container anchor
                     (case props vnode of
                        None \<Rightarrow> s1
                      | Some ps \<Rightarrow>
                          (let s2 = mountElement_props e el ps (prop_keys ps) s1 in
                           if prop_in ''value'' ps
                           then hostPatchProp el ''value'' JNull (prop_get ps ''value'') s2
                           else s2))))
      | _ \<Rightarrow> None)"

definition patchElement ::
  "env \<Rightarrow> patchfn \<Rightarrow> vnode \<Rightarrow> vnode \<Rightarrow> bool \<Rightarrow> rstate \<Rightarrow> rstate option" where
  "patchElement e P n1 n2 optimized s =
     (case el_of s n1 of
        None \<Rightarrow> None
      | Some el \<Rightarrow>
          (let s0 = set_el n2 (Some el) s;
               hmr = (DEV e \<and> isHmrUpdating e);
               pf = (if hmr then 0 else patchFlag n2 OR (patchFlag n1 AND FULL_PROPS e));
               optimized = (if hmr then False else optimized);
               dyn = (if hmr then None else dynamicChildren_of s n2)
           in
           case
             (case dyn of
                Some ds \<Rightarrow>
                  patchBlockChildren P (case dynamicChildren_of s n1 of None \<Rightarrow> [] | Some os \<Rightarrow> os)
                    ds el s0
              | None \<Rightarrow>
                  if \<not> optimized then patchChildren e P (Some n1) n2 el None False s0 else Some s0)
           of None \<Rightarrow> None
            | Some s1 \<Rightarrow> patchElement_props e n1 n2 el pf optimized (dyn \<noteq> None) s1))"

definition processElement ::
  "env \<Rightarrow> patchfn \<Rightarrow> vnode option \<Rightarrow> vnode \<Rightarrow> hnode \<Rightarrow> hnode option \<Rightarrow> bool \<Rightarrow> rstate \<Rightarrow>
   rstate option" where
  "processElement e P n1 n2 container anchor optimized s =
     (case n1 of
        None \<Rightarrow> mountElement e P n2 container anchor optimized s
      | Some o1 \<Rightarrow> patchElement e P o1 n2 optimized s)"

subsection \<open>Fragments and static nodes\<close>

text \<open>
  \<^verbatim>\<open>traverseStaticChildren\<close>: the new children inherit \<^verbatim>\<open>el\<close> from the old ones. A new
  list that is shorter than the old one gives \<^verbatim>\<open>undefined\<close>, whose \<^verbatim>\<open>shapeFlag\<close> is read.
\<close>

function traverseStaticChildren :: "env \<Rightarrow> vnode \<Rightarrow> vnode \<Rightarrow> bool \<Rightarrow> rstate \<Rightarrow> rstate option"
  and traverseStaticChildren_loop ::
    "env \<Rightarrow> vnode list \<Rightarrow> vnode list \<Rightarrow> bool \<Rightarrow> rstate \<Rightarrow> rstate option" where
  "traverseStaticChildren e n1 n2 shallow s =
     (case (children n1, children n2) of
        (ArrayChildren ch1, ArrayChildren ch2) \<Rightarrow> traverseStaticChildren_loop e ch1 ch2 shallow s
      | _ \<Rightarrow> Some s)"
| "traverseStaticChildren_loop e [] ch2 shallow s = Some s"
| "traverseStaticChildren_loop e (c1 # r1) [] shallow s = None"
| "traverseStaticChildren_loop e (c1 # r1) (c2 # r2) shallow s =
     (case
        (if is_ELEMENT c2 \<and> dynamicChildren_of s c2 = None then
           (let s' = (if patchFlag c2 \<le> 0 \<or> patchFlag c2 = HYDRATE_EVENTS e
                      then set_el c2 (el_of s c1) s else s)
            in if \<not> shallow then traverseStaticChildren e c1 c2 False s' else Some s')
         else Some s)
      of None \<Rightarrow> None
       | Some s1 \<Rightarrow>
           traverseStaticChildren_loop e r1 r2 shallow
             (if DEV e \<and> vtype c2 = Comment \<and> el_of s1 c2 = None
              then set_el c2 (el_of s1 c1) s1 else s1))"
  by pat_completeness auto
termination
  by (relation "measure (\<lambda>x. case x of Inl (e, n1, n2, r) \<Rightarrow> size n2
                                      | Inr (e, ch1, ch2, r) \<Rightarrow> size_list size ch2)")
     (auto simp: size_array_children [OF sym])

declare traverseStaticChildren.simps [simp del]

definition processFragment ::
  "env \<Rightarrow> patchfn \<Rightarrow> vnode option \<Rightarrow> vnode \<Rightarrow> hnode \<Rightarrow> hnode option \<Rightarrow> bool \<Rightarrow> rstate \<Rightarrow>
   rstate option" where
  "processFragment e P n1 n2 container anchor optimized s =
     (let reset = (DEV e \<and> (isHmrUpdating e \<or> patchFlag n2 AND DEV_ROOT_FRAGMENT e \<noteq> 0));
          pf = (if reset then 0 else patchFlag n2);
          optimized = (if reset then False else optimized);
          dyn = (if reset then None else dynamicChildren_of s n2)
      in
      case n1 of
        None \<Rightarrow>
          (case hostCreateText [] s of (fragmentStartAnchor, sa) \<Rightarrow>
           case hostCreateText [] (set_el n2 (Some fragmentStartAnchor) sa) of (fragmentEndAnchor, sb) \<Rightarrow>
             (case hostInsert fragmentStartAnchor container anchor
                     (set_anchor n2 (Some fragmentEndAnchor) sb) of
                None \<Rightarrow> None
              | Some sc \<Rightarrow>
                  (case hostInsert fragmentEndAnchor container anchor sc of
                     None \<Rightarrow> None
                   | Some sd \<Rightarrow>
                       (case as_array (children n2) of
                          None \<Rightarrow> None
                        | Some cs \<Rightarrow>
                            mountChildren P cs container (Some fragmentEndAnchor) optimized sd))))
      | Some o1 \<Rightarrow>
          (case (el_of s o1, anchor_of s o1) of
             (Some fragmentStartAnchor, Some fragmentEndAnchor) \<Rightarrow>
               (let s0 = set_anchor n2 (Some fragmentEndAnchor) (set_el n2 (Some fragmentStartAnchor) s) in
                case (if pf > 0 \<and> pf AND STABLE_FRAGMENT e \<noteq> 0 then dyn else None,
                      dynamicChildren_of s o1) of
                  (Some ds, Some os) \<Rightarrow>
                    (case patchBlockChildren P os ds container s0 of
                       None \<Rightarrow> None
                     | Some s1 \<Rightarrow>
                         if key n2 \<noteq> None then traverseStaticChildren e o1 n2 True s1 else Some s1)
                | _ \<Rightarrow> patchChildren e P (Some o1) n2 container (Some fragmentEndAnchor) optimized s0)
           | _ \<Rightarrow> None))"

text \<open>
  \<^verbatim>\<open>patchStaticNode\<close> (development build only): content that differs is replaced
  through \<^verbatim>\<open>insertStaticContent\<close>, which is outside the model.
\<close>

definition patchStaticNode :: "vnode \<Rightarrow> vnode \<Rightarrow> rstate \<Rightarrow> rstate option" where
  "patchStaticNode n1 n2 s =
     (if children n2 \<noteq> children n1 then None
      else Some (set_anchor n2 (anchor_of s n1) (set_el n2 (el_of s n1) s)))"

subsection \<open>patch\<close>

text \<open>
  The nodes on which the functions above call \<open>P\<close> when they work on \<open>n2\<close>: its
  children and its dynamic children. The congruence rules say so, and with them the
  recursion of \<open>patch\<close> through these functions is well-founded.
\<close>

definition subnodes :: "vnode \<Rightarrow> vnode set" where
  "subnodes v =
     (case children v of ArrayChildren cs \<Rightarrow> set cs | _ \<Rightarrow> {}) \<union>
     (case dynamicChildren v of Some ds \<Rightarrow> set ds | None \<Rightarrow> {})"

lemma js_nth_mem: "js_nth xs i = Some x \<Longrightarrow> x \<in> set xs"
  by (auto simp: js_nth_def split: if_splits)

lemma mountChildren_cong [fundef_cong]:
  "(\<And>n1 x c a b s. x \<in> set cs \<Longrightarrow> P n1 x c a b s = Q n1 x c a b s) \<Longrightarrow>
   mountChildren P cs container anchor optimized s = mountChildren Q cs container anchor optimized s"
  by (induction cs arbitrary: s) (auto split: option.splits)

lemma patchBlockChildren_cong [fundef_cong]:
  "(\<And>n1 x c a b s. x \<in> set ns \<Longrightarrow> P n1 x c a b s = Q n1 x c a b s) \<Longrightarrow>
   patchBlockChildren P os ns fb s = patchBlockChildren Q os ns fb s"
  by (induction P os ns fb s rule: patchBlockChildren.induct) (auto split: option.splits)

lemma patchUnkeyedChildren_common_cong [fundef_cong]:
  "(\<And>n1 x c a b s. x \<in> set c2 \<Longrightarrow> P n1 x c a b s = Q n1 x c a b s) \<Longrightarrow>
   patchUnkeyedChildren_common P c1 c2 container optimized s =
   patchUnkeyedChildren_common Q c1 c2 container optimized s"
  by (induction P c1 c2 container optimized s rule: patchUnkeyedChildren_common.induct)
     (auto split: option.splits)

lemma patchUnkeyedChildren_cong [fundef_cong]:
  assumes "\<And>n1 x c a b s. x \<in> set c2 \<Longrightarrow> P n1 x c a b s = Q n1 x c a b s"
  shows "patchUnkeyedChildren e P c1 c2 container anchor optimized s =
         patchUnkeyedChildren e Q c1 c2 container anchor optimized s"
proof -
  have 1: "patchUnkeyedChildren_common P c1 c2 container optimized s =
           patchUnkeyedChildren_common Q c1 c2 container optimized s"
    using assms by (rule patchUnkeyedChildren_common_cong)
  have 2: "\<And>n s. mountChildren P (drop n c2) container anchor optimized s =
                 mountChildren Q (drop n c2) container anchor optimized s"
    using assms by (intro mountChildren_cong) (auto dest: in_set_dropD)
  show ?thesis unfolding patchUnkeyedChildren_def 1 2 ..
qed

lemma patchKeyedChildren_start_cong [fundef_cong]:
  assumes "\<And>n1 x c a b s. x \<in> set c2 \<Longrightarrow> P n1 x c a b s = Q n1 x c a b s"
  shows "patchKeyedChildren_start P c1 c2 container optimized i e1 e2 s =
         patchKeyedChildren_start Q c1 c2 container optimized i e1 e2 s"
  using assms
proof (induction P c1 c2 container optimized i e1 e2 s rule: patchKeyedChildren_start.induct)
  case (1 P c1 c2 container optimized i e1 e2 s)
  show ?case
    using 1 by (subst patchKeyedChildren_start.simps[of P], subst patchKeyedChildren_start.simps[of Q])
      (auto split: option.splits dest: js_nth_mem)
qed

lemma patchKeyedChildren_end_cong [fundef_cong]:
  assumes "\<And>n1 x c a b s. x \<in> set c2 \<Longrightarrow> P n1 x c a b s = Q n1 x c a b s"
  shows "patchKeyedChildren_end P c1 c2 container optimized i e1 e2 s =
         patchKeyedChildren_end Q c1 c2 container optimized i e1 e2 s"
  using assms
proof (induction P c1 c2 container optimized i e1 e2 s rule: patchKeyedChildren_end.induct)
  case (1 P c1 c2 container optimized i e1 e2 s)
  show ?case
    using 1 by (subst patchKeyedChildren_end.simps[of P], subst patchKeyedChildren_end.simps[of Q])
      (auto split: option.splits dest: js_nth_mem)
qed

lemma patchKeyedChildren_mount_cong [fundef_cong]:
  assumes "\<And>n1 x c a b s. x \<in> set c2 \<Longrightarrow> P n1 x c a b s = Q n1 x c a b s"
  shows "patchKeyedChildren_mount P c2 container anchor optimized i e2 s =
         patchKeyedChildren_mount Q c2 container anchor optimized i e2 s"
  using assms
proof (induction P c2 container anchor optimized i e2 s rule: patchKeyedChildren_mount.induct)
  case (1 P c2 container anchor optimized i e2 s)
  show ?case
    using 1 by (subst patchKeyedChildren_mount.simps[of P], subst patchKeyedChildren_mount.simps[of Q])
      (auto split: option.splits dest: js_nth_mem)
qed

lemma patchKeyedChildren_old_pass_cong [fundef_cong]:
  assumes "\<And>n1 x c a b s. x \<in> set c2 \<Longrightarrow> P n1 x c a b s = Q n1 x c a b s"
  shows "patchKeyedChildren_old_pass e P c1 c2 container optimized km s2 e2 tbp i st =
         patchKeyedChildren_old_pass e Q c1 c2 container optimized km s2 e2 tbp i st"
  using assms unfolding patchKeyedChildren_old_pass_def
  by (auto split: option.splits prod.splits dest: js_nth_mem)

lemma patchKeyedChildren_old_cong [fundef_cong]:
  assumes "\<And>n1 x c a b s. x \<in> set c2 \<Longrightarrow> P n1 x c a b s = Q n1 x c a b s"
  shows "patchKeyedChildren_old e P c1 c2 container optimized km s2 e2 tbp i e1 st =
         patchKeyedChildren_old e Q c1 c2 container optimized km s2 e2 tbp i e1 st"
  using assms
proof (induction e P c1 c2 container optimized km s2 e2 tbp i e1 st
       rule: patchKeyedChildren_old.induct)
  case (1 e P c1 c2 container optimized km s2 e2 tbp i e1 st)
  have pass: "patchKeyedChildren_old_pass e P c1 c2 container optimized km s2 e2 tbp i st =
              patchKeyedChildren_old_pass e Q c1 c2 container optimized km s2 e2 tbp i st"
    using "1.prems" by (rule patchKeyedChildren_old_pass_cong)
  show ?case
    using "1.IH" "1.prems" pass
    by (subst patchKeyedChildren_old.simps[of e P], subst patchKeyedChildren_old.simps[of e Q])
       (auto split: option.splits)
qed

lemma patchKeyedChildren_move_pass_cong [fundef_cong]:
  assumes "\<And>n1 x c a b s. x \<in> set c2 \<Longrightarrow> P n1 x c a b s = Q n1 x c a b s"
  shows "patchKeyedChildren_move_pass P c2 container pa optimized s2 l2 moved m sq i st =
         patchKeyedChildren_move_pass Q c2 container pa optimized s2 l2 moved m sq i st"
  using assms unfolding patchKeyedChildren_move_pass_def
  by (auto split: option.splits prod.splits dest: js_nth_mem simp: Let_def)

lemma patchKeyedChildren_move_cong [fundef_cong]:
  assumes "\<And>n1 x c a b s. x \<in> set c2 \<Longrightarrow> P n1 x c a b s = Q n1 x c a b s"
  shows "patchKeyedChildren_move P c2 container pa optimized s2 l2 moved m sq i st =
         patchKeyedChildren_move Q c2 container pa optimized s2 l2 moved m sq i st"
  using assms
proof (induction P c2 container pa optimized s2 l2 moved m sq i st
       rule: patchKeyedChildren_move.induct)
  case (1 P c2 container pa optimized s2 l2 moved m sq i st)
  have pass: "patchKeyedChildren_move_pass P c2 container pa optimized s2 l2 moved m sq i st =
              patchKeyedChildren_move_pass Q c2 container pa optimized s2 l2 moved m sq i st"
    using "1.prems" by (rule patchKeyedChildren_move_pass_cong)
  show ?case
    using "1.IH" "1.prems" pass
    by (subst patchKeyedChildren_move.simps[of P], subst patchKeyedChildren_move.simps[of Q])
       (auto split: option.splits)
qed


lemma patchKeyedChildren_cong [fundef_cong]:
  assumes "\<And>n1 x c a b s. x \<in> set c2 \<Longrightarrow> P n1 x c a b s = Q n1 x c a b s"
  shows "patchKeyedChildren e P c1 c2 container parentAnchor optimized s =
         patchKeyedChildren e Q c1 c2 container parentAnchor optimized s"
proof -
  have 1: "\<And>i e1 e2 s. patchKeyedChildren_start P c1 c2 container optimized i e1 e2 s =
                         patchKeyedChildren_start Q c1 c2 container optimized i e1 e2 s"
    using assms by (rule patchKeyedChildren_start_cong)
  have 2: "\<And>i e1 e2 s. patchKeyedChildren_end P c1 c2 container optimized i e1 e2 s =
                         patchKeyedChildren_end Q c1 c2 container optimized i e1 e2 s"
    using assms by (rule patchKeyedChildren_end_cong)
  have 3: "\<And>anchor i e2 s. patchKeyedChildren_mount P c2 container anchor optimized i e2 s =
                            patchKeyedChildren_mount Q c2 container anchor optimized i e2 s"
    using assms by (rule patchKeyedChildren_mount_cong)
  have 4: "\<And>km s2 e2 tbp i e1 st.
      patchKeyedChildren_old e P c1 c2 container optimized km s2 e2 tbp i e1 st =
      patchKeyedChildren_old e Q c1 c2 container optimized km s2 e2 tbp i e1 st"
    using assms by (rule patchKeyedChildren_old_cong)
  have 5: "\<And>s2 l2 moved m sq i st.
      patchKeyedChildren_move P c2 container parentAnchor optimized s2 l2 moved m sq i st =
      patchKeyedChildren_move Q c2 container parentAnchor optimized s2 l2 moved m sq i st"
    using assms by (rule patchKeyedChildren_move_cong)
  show ?thesis unfolding patchKeyedChildren_def 1 2 3 4 5 ..
qed

lemma as_array_subnodes: "as_array (children n2) = Some cs \<Longrightarrow> x \<in> set cs \<Longrightarrow> x \<in> subnodes n2"
  by (auto simp: as_array_def subnodes_def split: vchildren.splits)

lemma or_EMPTY_ARR_subnodes:
  "or_EMPTY_ARR (children n2) = Some cs \<Longrightarrow> x \<in> set cs \<Longrightarrow> x \<in> subnodes n2"
  by (auto simp: or_EMPTY_ARR_def subnodes_def split: vchildren.splits if_splits)

lemma dynamicChildren_of_subnodes:
  "dynamicChildren_of s n2 = Some ds \<Longrightarrow> x \<in> set ds \<Longrightarrow> x \<in> subnodes n2"
  by (auto simp: dynamicChildren_of_def subnodes_def split: if_splits)

lemma patchChildren_cong [fundef_cong]:
  assumes "\<And>n1 x c a b s. x \<in> subnodes n2 \<Longrightarrow> P n1 x c a b s = Q n1 x c a b s"
  shows "patchChildren e P n1 n2 container anchor optimized s =
         patchChildren e Q n1 n2 container anchor optimized s"
proof -
  have k: "\<And>a1 a2 c a b s. as_array (children n2) = Some a2 \<Longrightarrow>
      patchKeyedChildren e P a1 a2 c a b s = patchKeyedChildren e Q a1 a2 c a b s"
    using assms by (intro patchKeyedChildren_cong) (auto dest: as_array_subnodes)
  have u: "\<And>a1 a2 c a b s. or_EMPTY_ARR (children n2) = Some a2 \<Longrightarrow>
      patchUnkeyedChildren e P a1 a2 c a b s = patchUnkeyedChildren e Q a1 a2 c a b s"
    using assms by (intro patchUnkeyedChildren_cong) (auto dest: or_EMPTY_ARR_subnodes)
  have m: "\<And>a2 c a b s. as_array (children n2) = Some a2 \<Longrightarrow>
      mountChildren P a2 c a b s = mountChildren Q a2 c a b s"
    using assms by (intro mountChildren_cong) (auto dest: as_array_subnodes)
  show ?thesis
    unfolding patchChildren_def Let_def
    by (auto split: option.splits simp: k u m)
qed

lemma mountElement_cong [fundef_cong]:
  assumes "\<And>n1 x c a b s. x \<in> subnodes n2 \<Longrightarrow> P n1 x c a b s = Q n1 x c a b s"
  shows "mountElement e P n2 container anchor optimized s =
         mountElement e Q n2 container anchor optimized s"
proof -
  have m: "\<And>cs c a b s. children n2 = ArrayChildren cs \<Longrightarrow>
      mountChildren P cs c a b s = mountChildren Q cs c a b s"
    using assms by (intro mountChildren_cong) (auto simp: subnodes_def)
  show ?thesis
    unfolding mountElement_def
    by (auto split: vtype.splits prod.splits vchildren.splits option.splits simp: m)
qed

lemma patchElement_cong [fundef_cong]:
  assumes "\<And>n1 x c a b s. x \<in> subnodes n2 \<Longrightarrow> P n1 x c a b s = Q n1 x c a b s"
  shows "patchElement e P n1 n2 optimized s = patchElement e Q n1 n2 optimized s"
proof -
  have b: "\<And>os ds fb s'. dynamicChildren_of s n2 = Some ds \<Longrightarrow>
      patchBlockChildren P os ds fb s' = patchBlockChildren Q os ds fb s'"
    using assms by (intro patchBlockChildren_cong) (auto dest: dynamicChildren_of_subnodes)
  have c: "\<And>n1 c a b s. patchChildren e P n1 n2 c a b s = patchChildren e Q n1 n2 c a b s"
    using assms by (intro patchChildren_cong) auto
  show ?thesis
    unfolding patchElement_def Let_def
    by (auto split: option.splits simp: b c)
qed

lemma processElement_cong [fundef_cong]:
  assumes "\<And>n1 x c a b s. x \<in> subnodes n2 \<Longrightarrow> P n1 x c a b s = Q n1 x c a b s"
  shows "processElement e P n1 n2 container anchor optimized s =
         processElement e Q n1 n2 container anchor optimized s"
  unfolding processElement_def
  using mountElement_cong[of n2 P Q, OF assms] patchElement_cong[of n2 P Q, OF assms]
  by (auto split: option.splits)

lemma processFragment_cong [fundef_cong]:
  assumes "\<And>n1 x c a b s. x \<in> subnodes n2 \<Longrightarrow> P n1 x c a b s = Q n1 x c a b s"
  shows "processFragment e P n1 n2 container anchor optimized s =
         processFragment e Q n1 n2 container anchor optimized s"
proof -
  have b: "\<And>os ds fb s'. dynamicChildren_of s n2 = Some ds \<Longrightarrow>
      patchBlockChildren P os ds fb s' = patchBlockChildren Q os ds fb s'"
    using assms by (intro patchBlockChildren_cong) (auto dest: dynamicChildren_of_subnodes)
  have c: "\<And>n1 c a b s. patchChildren e P n1 n2 c a b s = patchChildren e Q n1 n2 c a b s"
    using assms by (intro patchChildren_cong) auto
  have m: "\<And>a2 c a b s. as_array (children n2) = Some a2 \<Longrightarrow>
      mountChildren P a2 c a b s = mountChildren Q a2 c a b s"
    using assms by (intro mountChildren_cong) (auto dest: as_array_subnodes)
  show ?thesis
    unfolding processFragment_def Let_def
    by (auto split: option.splits prod.splits if_splits simp: b c m)
qed

lemma size_member_le: "x \<in> set xs \<Longrightarrow> size (x::vnode) \<le> size_list size xs"
  by (induction xs) auto

lemma size_subnodes: "x \<in> subnodes n2 \<Longrightarrow> size x < size n2"
  by (cases n2) (auto simp: subnodes_def split: vchildren.splits option.splits
      dest!: size_member_le)

text \<open>
  \<^verbatim>\<open>patch\<close>. Static nodes are mounted by \<^verbatim>\<open>insertStaticContent\<close>, components,
  teleports and suspense boundaries are processed by their own runtime: the model ends
  there. The argument \<open>optimized\<close> is given by every caller in the renderer.
\<close>

function patch ::
  "env \<Rightarrow> vnode option \<Rightarrow> vnode \<Rightarrow> hnode \<Rightarrow> hnode option \<Rightarrow> bool \<Rightarrow> rstate \<Rightarrow> rstate option" where
  "patch e n1 n2 container anchor optimized s =
     (if (case n1 of None \<Rightarrow> False | Some o1 \<Rightarrow> ident o1 = ident n2) then Some s
      else
        (case
           (case n1 of
              None \<Rightarrow> Some (n1, anchor, s)
            | Some o1 \<Rightarrow>
                if \<not> isSameVNodeType o1 n2 then
                  (case getNextHostNode s o1 of
                     None \<Rightarrow> None
                   | Some nxt \<Rightarrow>
                       (case unmount e o1 True False s of
                          None \<Rightarrow> None
                        | Some s' \<Rightarrow> Some (None, nxt, s')))
                else Some (n1, anchor, s))
         of None \<Rightarrow> None
          | Some (n1, anchor, s1) \<Rightarrow>
              (let optimized = (if patchFlag n2 = BAIL e then False else optimized);
                   s2 = (if patchFlag n2 = BAIL e
                         then s1\<lparr>bailed := (bailed s1)(ident n2 := True)\<rparr> else s1)
               in
               case vtype n2 of
                 Text \<Rightarrow> processText n1 n2 container anchor s2
               | Comment \<Rightarrow> processCommentNode n1 n2 container anchor s2
               | Static \<Rightarrow>
                   (case n1 of
                      None \<Rightarrow> None
                    | Some o1 \<Rightarrow> if DEV e then patchStaticNode o1 n2 s2 else Some s2)
               | Fragment \<Rightarrow> processFragment e (patch e) n1 n2 container anchor optimized s2
               | Element tag \<Rightarrow> processElement e (patch e) n1 n2 container anchor optimized s2
               | Component c \<Rightarrow> None
               | Teleport \<Rightarrow> None
               | Suspense \<Rightarrow> None)))"
  by pat_completeness auto
termination
  by (relation "measure (\<lambda>(e, n1, n2, r). size n2)") (auto simp: size_subnodes)

declare patch.simps [simp del]

subsection \<open>An environment and a state for examples\<close>

text \<open>
  The development build outside a hot reload, with the values that the shared package
  gives the patch flags and the reserved props, and a host tree that holds one empty
  container, node \<open>0\<close>.
\<close>

definition vue_env :: env where
  "vue_env =
     \<lparr>DEV = True, isHmrUpdating = False,
      isReservedProp = (\<lambda>k. k \<in> set [[], ''key'', ''ref'', ''ref_for'', ''ref_key'',
         ''onVnodeBeforeMount'', ''onVnodeMounted'', ''onVnodeBeforeUpdate'', ''onVnodeUpdated'',
         ''onVnodeBeforeUnmount'', ''onVnodeUnmounted'']),
      TEXT = 1, CLASS = 2, STYLE = 4, PROPS = 8, FULL_PROPS = 16, HYDRATE_EVENTS = 32,
      STABLE_FRAGMENT = 64, KEYED_FRAGMENT = 128, UNKEYED_FRAGMENT = 256,
      DEV_ROOT_FRAGMENT = 2048, BAIL = - 2\<rparr>"

definition init_state :: rstate where
  "init_state =
     \<lparr>vnode_el = (\<lambda>i. None), vnode_anchor = (\<lambda>i. None), bailed = (\<lambda>i. False),
      host_kind = (\<lambda>h. if h = 0 then Some (HElement ''div'') else None),
      host_kids = (\<lambda>h. []), host_parent = (\<lambda>h. None), host_text = (\<lambda>h. []),
      host_props = (\<lambda>h k. JUndefined), next_node = 1, ops = [], warnings = []\<rparr>"

text \<open>A text node, a comment node and an element with a text child.\<close>

definition text_vnode :: "nat \<Rightarrow> vkey option \<Rightarrow> string \<Rightarrow> vnode" where
  "text_vnode i k t = VNode i Text k None (TextChildren t) 0 None None NoInstance"

definition comment_vnode :: "nat \<Rightarrow> vkey option \<Rightarrow> string \<Rightarrow> vnode" where
  "comment_vnode i k t = VNode i Comment k None (TextChildren t) 0 None None NoInstance"

definition element_vnode ::
  "nat \<Rightarrow> string \<Rightarrow> vkey option \<Rightarrow> props_obj option \<Rightarrow> string \<Rightarrow> int \<Rightarrow> vnode" where
  "element_vnode i tag k ps t pf = VNode i (Element tag) k ps (TextChildren t) pf None None NoInstance"

text \<open>The state after the node with identity \<open>1\<close> has been mounted in the container as host node \<open>1\<close>.\<close>

definition mounted_state :: "hkind \<Rightarrow> string \<Rightarrow> rstate" where
  "mounted_state k t =
     init_state\<lparr>vnode_el := (\<lambda>i. if i = 1 then Some 1 else None),
       host_kind := (\<lambda>h. if h = 0 then Some (HElement ''div'') else if h = 1 then Some k else None),
       host_kids := (\<lambda>h. if h = 0 then [1] else []),
       host_parent := (\<lambda>h. if h = 1 then Some 0 else None),
       host_text := (\<lambda>h. if h = 1 then t else []),
       next_node := 2\<rparr>"







section \<open>Correctness of getSequence\<close>

text \<open>
  The positions that the sequence may use: position \<open>0\<close>, with which the result
  array starts whatever \<open>arr\<close> holds there, and every position of a non-zero entry.
\<close>

definition active :: "nat list \<Rightarrow> nat \<Rightarrow> bool" where
  "active arr j \<longleftrightarrow> j < length arr \<and> (j = 0 \<or> arr ! j \<noteq> 0)"

fun chain :: "nat list \<Rightarrow> nat list \<Rightarrow> nat \<Rightarrow> nat \<Rightarrow> bool" where
  "chain arr p j 0 = True"
| "chain arr p j (Suc k) =
     (p ! j < j \<and> active arr (p ! j) \<and> arr ! (p ! j) < arr ! j \<and> chain arr p (p ! j) k)"

fun chain_list :: "nat list \<Rightarrow> nat \<Rightarrow> nat \<Rightarrow> nat list" where
  "chain_list p w 0 = [w]"
| "chain_list p w (Suc m) = chain_list p (p ! w) m @ [w]"

definition incr_upto :: "nat list \<Rightarrow> nat \<Rightarrow> nat list \<Rightarrow> bool" where
  "incr_upto arr i qs \<longleftrightarrow>
     sorted_wrt (<) qs \<and> (\<forall>j\<in>set qs. active arr j \<and> j < i) \<and> sorted_wrt (<) (map ((!) arr) qs)"

definition seq_inv :: "nat list \<Rightarrow> nat \<Rightarrow> nat list \<times> nat list \<Rightarrow> bool" where
  "seq_inv arr i s \<longleftrightarrow>
     (case s of (p, result) \<Rightarrow>
        length p = length arr \<and> result \<noteq> [] \<and>
        (\<forall>k<length result. active arr (result ! k) \<and> result ! k < i \<and> chain arr p (result ! k) k) \<and>
        sorted_wrt (<) (map ((!) arr) result) \<and>
        (\<forall>qs. incr_upto arr i qs \<and> qs \<noteq> [] \<longrightarrow>
              length qs \<le> length result \<and> arr ! (result ! (length qs - 1)) \<le> arr ! (last qs)))"

lemma chain_update: "chain arr p j k \<Longrightarrow> j < i \<Longrightarrow> chain arr (p[i := x]) j k"
  by (induction k arbitrary: j) auto

lemma arr_at_result_in:
  "c < length result \<Longrightarrow> result ! c < length arr \<Longrightarrow>
   arr_at_result arr result c = Some (arr ! (result ! c))"
  by (simp add: arr_at_result_def js_get_def)

lemma search_spec:
  assumes "u \<le> v" "v < length result" "\<forall>k<length result. result ! k < length arr"
    "sorted_wrt (<) (map ((!) arr) result)"
    "\<forall>c<u. arr ! (result ! c) < x" "x \<le> arr ! (result ! v)"
  shows "u \<le> getSequence_search arr result x u v \<and> getSequence_search arr result x u v \<le> v \<and>
     (\<forall>c<getSequence_search arr result x u v. arr ! (result ! c) < x) \<and>
     x \<le> arr ! (result ! getSequence_search arr result x u v)"
  using assms
proof (induction arr result x u v rule: getSequence_search.induct)
  case (1 arr result arrI u v)
  show ?case
  proof (cases "u < v")
    case False
    with "1.prems" show ?thesis by (simp add: getSequence_search.simps)
  next
    case True
    define c where "c = (u + v) div 2"
    have c: "u \<le> c" "c < v" using True by (auto simp: c_def)
    have cin: "c < length result" using c "1.prems" by simp
    have val: "arr_at_result arr result c = Some (arr ! (result ! c))"
      using cin "1.prems"(3) by (simp add: arr_at_result_in)
    show ?thesis
    proof (cases "arr ! (result ! c) < arrI")
      case lt: True
      have mono: "\<forall>d<c + 1. arr ! (result ! d) < arrI"
      proof (intro allI impI)
        fix d assume d: "d < c + 1"
        show "arr ! (result ! d) < arrI"
        proof (cases "d = c")
          case True then show ?thesis using lt by simp
        next
          case False
          then have "d < c" using d by simp
          then have "map ((!) arr) result ! d < map ((!) arr) result ! c"
            using "1.prems"(4) cin by (simp add: sorted_wrt_iff_nth_less)
          then show ?thesis using lt cin \<open>d < c\<close> by simp
        qed
      qed
      have eq: "getSequence_search arr result arrI u v = getSequence_search arr result arrI (c + 1) v"
        using True lt val by (subst getSequence_search.simps) (simp add: c_def Let_def)
      have "c + 1 \<le> getSequence_search arr result arrI (c + 1) v \<and>
            getSequence_search arr result arrI (c + 1) v \<le> v \<and>
            (\<forall>d<getSequence_search arr result arrI (c + 1) v. arr ! (result ! d) < arrI) \<and>
            arrI \<le> arr ! (result ! getSequence_search arr result arrI (c + 1) v)"
        using "1.IH"(1)[OF True c_def] lt val c "1.prems" mono
        by (simp add: c_def)
      then show ?thesis using eq c by auto
    next
      case ge: False
      have eq: "getSequence_search arr result arrI u v = getSequence_search arr result arrI u c"
        using True ge val by (subst getSequence_search.simps) (simp add: c_def Let_def)
      have "u \<le> getSequence_search arr result arrI u c \<and>
            getSequence_search arr result arrI u c \<le> c \<and>
            (\<forall>d<getSequence_search arr result arrI u c. arr ! (result ! d) < arrI) \<and>
            arrI \<le> arr ! (result ! getSequence_search arr result arrI u c)"
        using "1.IH"(2)[OF True c_def] ge val c cin "1.prems"
        by (simp add: c_def)
      then show ?thesis using eq c by auto
    qed
  qed
qed


lemma incr_upto_Suc:
  assumes "incr_upto arr (Suc i) qs"
  shows "incr_upto arr i qs \<or>
    (\<exists>qs'. qs = qs' @ [i] \<and> incr_upto arr i qs' \<and> active arr i \<and>
       (qs' \<noteq> [] \<longrightarrow> arr ! last qs' < arr ! i))"
proof (cases qs rule: rev_cases)
  case Nil
  then show ?thesis by (simp add: incr_upto_def)
next
  case (snoc ys y)
  have sorted: "sorted_wrt (<) ys" "\<forall>z\<in>set ys. z < y"
    using assms snoc by (auto simp: incr_upto_def sorted_wrt_append)
  have vals: "sorted_wrt (<) (map ((!) arr) ys)" "\<forall>z\<in>set ys. arr ! z < arr ! y"
    using assms snoc by (auto simp: incr_upto_def sorted_wrt_append)
  have act: "\<forall>j\<in>set ys. active arr j" "active arr y" "y < Suc i"
    using assms snoc by (auto simp: incr_upto_def)
  show ?thesis
  proof (cases "y = i")
    case True
    have "incr_upto arr i ys"
      using sorted vals act True by (auto simp: incr_upto_def)
    moreover have "ys \<noteq> [] \<longrightarrow> arr ! last ys < arr ! i"
      using vals(2) True by auto
    ultimately show ?thesis using snoc True act by auto
  next
    case False
    then have "y < i" using act by simp
    then have "incr_upto arr i qs"
      using assms snoc sorted by (fastforce simp: incr_upto_def)
    then show ?thesis by simp
  qed
qed

lemma vals_mono:
  fixes arr :: "nat list"
  assumes "sorted_wrt (<) (map ((!) arr) result)" "a \<le> b" "b < length result"
  shows "arr ! (result ! a) \<le> arr ! (result ! b)"
proof (cases "a = b")
  case True then show ?thesis by simp
next
  case False
  then have "a < b" using assms by simp
  then have "map ((!) arr) result ! a < map ((!) arr) result ! b"
    using assms by (simp add: sorted_wrt_iff_nth_less)
  then show ?thesis using assms \<open>a < b\<close> by simp
qed

lemma vals_strict:
  fixes arr :: "nat list"
  assumes "sorted_wrt (<) (map ((!) arr) result)" "a < b" "b < length result"
  shows "arr ! (result ! a) < arr ! (result ! b)"
proof -
  have "map ((!) arr) result ! a < map ((!) arr) result ! b"
    using assms by (simp add: sorted_wrt_iff_nth_less)
  then show ?thesis using assms by simp
qed

lemma inv_skip:
  assumes "seq_inv arr i (p, result)" "arr ! i = 0" "0 < i"
  shows "seq_inv arr (Suc i) (p, result)"
proof -
  have noti: "\<not> active arr i" using assms by (simp add: active_def)
  have up: "\<And>qs. incr_upto arr (Suc i) qs \<Longrightarrow> incr_upto arr i qs"
    using incr_upto_Suc noti by blast
  show ?thesis
    using assms(1) up unfolding seq_inv_def by (auto simp: less_Suc_eq)
qed


definition seq_opt :: "nat list \<Rightarrow> nat \<Rightarrow> nat list \<Rightarrow> bool" where
  "seq_opt arr i result \<longleftrightarrow>
     (\<forall>qs. incr_upto arr i qs \<and> qs \<noteq> [] \<longrightarrow>
        length qs \<le> length result \<and> arr ! (result ! (length qs - 1)) \<le> arr ! (last qs))"

lemma seq_opt_step:
  assumes old: "seq_opt arr i result"
    and len: "length result \<le> length result'"
    and dom: "\<forall>k<length result. arr ! (result' ! k) \<le> arr ! (result ! k)"
    and first: "0 < length result'" "arr ! (result' ! 0) \<le> arr ! i"
    and ext: "\<forall>m. 0 < m \<and> m \<le> length result \<and> arr ! (result ! (m - 1)) < arr ! i \<longrightarrow>
                m < length result' \<and> arr ! (result' ! m) \<le> arr ! i"
  shows "seq_opt arr (Suc i) result'"
  unfolding seq_opt_def
proof (intro allI impI)
  fix qs assume qs: "incr_upto arr (Suc i) qs \<and> qs \<noteq> []"
  from incr_upto_Suc[of arr i qs] qs
  consider (A) "incr_upto arr i qs"
    | (B) qs' where "qs = qs' @ [i]" "incr_upto arr i qs'" "qs' \<noteq> [] \<longrightarrow> arr ! last qs' < arr ! i"
    by blast
  then show "length qs \<le> length result' \<and> arr ! (result' ! (length qs - 1)) \<le> arr ! last qs"
  proof cases
    case A
    with old qs have o: "length qs \<le> length result"
      "arr ! (result ! (length qs - 1)) \<le> arr ! (last qs)"
      by (auto simp: seq_opt_def)
    have "length qs - 1 < length result" using o(1) qs by (cases qs) auto
    with dom have "arr ! (result' ! (length qs - 1)) \<le> arr ! (result ! (length qs - 1))" by blast
    with o len show ?thesis by simp
  next
    case B
    show ?thesis
    proof (cases "qs' = []")
      case True
      with B first show ?thesis by (cases result') auto
    next
      case False
      with old B have o: "length qs' \<le> length result"
        "arr ! (result ! (length qs' - 1)) \<le> arr ! (last qs')"
        by (auto simp: seq_opt_def)
      have "0 < length qs'" using False by simp
      moreover have "arr ! (result ! (length qs' - 1)) < arr ! i"
        using o(2) B(3) False by simp
      ultimately have "length qs' < length result' \<and> arr ! (result' ! length qs') \<le> arr ! i"
        using ext o(1) by blast
      with B show ?thesis by simp
    qed
  qed
qed

lemma seq_inv_iff:
  "seq_inv arr i (p, result) \<longleftrightarrow>
     length p = length arr \<and> result \<noteq> [] \<and>
     (\<forall>k<length result. active arr (result ! k) \<and> result ! k < i \<and> chain arr p (result ! k) k) \<and>
     sorted_wrt (<) (map ((!) arr) result) \<and> seq_opt arr i result"
  by (simp add: seq_inv_def seq_opt_def)

lemma inv_push:
  assumes inv: "seq_inv arr i (p, result)" and i: "0 < i" "i < length arr"
    and x: "arr ! i \<noteq> 0"
    and lt: "arr ! (result ! (length result - 1)) < arr ! i"
  shows "seq_inv arr (Suc i) (p[i := result ! (length result - 1)], result @ [i])"
proof -
  define L where "L = length result"
  define j where "j = result ! (L - 1)"
  from inv have lenp: "length p = length arr" and ne: "result \<noteq> []"
    and C: "\<And>k. k < L \<Longrightarrow> active arr (result ! k) \<and> result ! k < i \<and> chain arr p (result ! k) k"
    and S: "sorted_wrt (<) (map ((!) arr) result)"
    and E: "seq_opt arr i result"
    by (auto simp: seq_inv_iff L_def)
  have Lpos: "0 < L" using ne by (simp add: L_def)
  have jC: "active arr j" "j < i" "chain arr p j (L - 1)"
    using C[of "L - 1"] Lpos by (auto simp: j_def)
  have below: "\<And>k. k < L \<Longrightarrow> arr ! (result ! k) < arr ! i"
  proof -
    fix k assume "k < L"
    then have "arr ! (result ! k) \<le> arr ! (result ! (L - 1))"
      using vals_mono[OF S, of k "L - 1"] Lpos by (simp add: L_def)
    with lt show "arr ! (result ! k) < arr ! i" by (simp add: L_def)
  qed
  have c: "\<forall>k<length (result @ [i]). active arr ((result @ [i]) ! k) \<and> (result @ [i]) ! k < Suc i \<and>
            chain arr (p[i := j]) ((result @ [i]) ! k) k"
  proof (intro allI impI)
    fix k assume k: "k < length (result @ [i])"
    show "active arr ((result @ [i]) ! k) \<and> (result @ [i]) ! k < Suc i \<and>
            chain arr (p[i := j]) ((result @ [i]) ! k) k"
    proof (cases "k < L")
      case True
      then show ?thesis using C[OF True] chain_update[of arr p "result ! k" k i j]
        by (simp add: nth_append L_def)
    next
      case False
      then have kL: "k = L" using k by (simp add: L_def)
      have "chain arr (p[i := j]) i (Suc (L - 1))"
        using jC i lenp chain_update[of arr p j "L - 1" i j] lt
        by (simp add: j_def L_def)
      then have "chain arr (p[i := j]) i L" using Lpos by simp
      then show ?thesis using kL i x by (simp add: nth_append L_def active_def)
    qed
  qed
  have d: "sorted_wrt (<) (map ((!) arr) (result @ [i]))"
    using S below by (auto simp: sorted_wrt_append in_set_conv_nth L_def)
  have e: "seq_opt arr (Suc i) (result @ [i])"
  proof (rule seq_opt_step[OF E])
    show "length result \<le> length (result @ [i])" by simp
    show "\<forall>k<length result. arr ! ((result @ [i]) ! k) \<le> arr ! (result ! k)"
      by (simp add: nth_append)
    show "0 < length (result @ [i])" by simp
    show "arr ! ((result @ [i]) ! 0) \<le> arr ! i"
      using below[of 0] Lpos by (simp add: nth_append L_def)
    show "\<forall>m. 0 < m \<and> m \<le> length result \<and> arr ! (result ! (m - 1)) < arr ! i \<longrightarrow>
            m < length (result @ [i]) \<and> arr ! ((result @ [i]) ! m) \<le> arr ! i"
    proof (intro allI impI)
      fix m assume m: "0 < m \<and> m \<le> length result \<and> arr ! (result ! (m - 1)) < arr ! i"
      show "m < length (result @ [i]) \<and> arr ! ((result @ [i]) ! m) \<le> arr ! i"
      proof (cases "m < L")
        case True
        then show ?thesis using below[OF True] by (simp add: nth_append L_def)
      next
        case False
        then have "m = length result" using m by (simp add: L_def)
        then show ?thesis by (simp add: nth_append)
      qed
    qed
  qed
  show ?thesis
    using lenp c d e by (simp add: seq_inv_iff j_def L_def)
qed


lemma inv_stay:
  assumes inv: "seq_inv arr i (p, result)"
    and u: "u < length result"
    and eq: "arr ! (result ! u) = arr ! i"
    and below: "\<forall>c<u. arr ! (result ! c) < arr ! i"
  shows "seq_inv arr (Suc i) (p, result)"
proof -
  from inv have S: "sorted_wrt (<) (map ((!) arr) result)" and E: "seq_opt arr i result"
    by (auto simp: seq_inv_iff)
  have e: "seq_opt arr (Suc i) result"
  proof (rule seq_opt_step[OF E])
    show "length result \<le> length result" by simp
    show "\<forall>k<length result. arr ! (result ! k) \<le> arr ! (result ! k)" by simp
    show "0 < length result" using u by auto
    show "arr ! (result ! 0) \<le> arr ! i"
      using vals_mono[OF S, of 0 u] u eq by simp
    show "\<forall>m. 0 < m \<and> m \<le> length result \<and> arr ! (result ! (m - 1)) < arr ! i \<longrightarrow>
            m < length result \<and> arr ! (result ! m) \<le> arr ! i"
    proof (intro allI impI)
      fix m assume m: "0 < m \<and> m \<le> length result \<and> arr ! (result ! (m - 1)) < arr ! i"
      have "m - 1 < u"
      proof (rule ccontr)
        assume "\<not> m - 1 < u"
        then have "u \<le> m - 1" by simp
        moreover have "m - 1 < length result" using m by auto
        ultimately have "arr ! (result ! u) \<le> arr ! (result ! (m - 1))"
          using vals_mono[OF S, of u "m - 1"] by simp
        with m eq show False by simp
      qed
      then have mu: "m \<le> u" using m by simp
      then have "arr ! (result ! m) \<le> arr ! (result ! u)"
        using vals_mono[OF S, of m u] u by simp
      with mu u eq show "m < length result \<and> arr ! (result ! m) \<le> arr ! i" by simp
    qed
  qed
  show ?thesis using inv e by (auto simp: seq_inv_iff less_Suc_eq)
qed

lemma inv_replace:
  assumes inv: "seq_inv arr i (p, result)" and i: "0 < i" "i < length arr"
    and x: "arr ! i \<noteq> 0"
    and u: "u < length result"
    and lt: "arr ! i < arr ! (result ! u)"
    and below: "\<forall>c<u. arr ! (result ! c) < arr ! i"
  shows "seq_inv arr (Suc i) ((if u > 0 then p[i := result ! (u - 1)] else p), result[u := i])"
proof -
  define p' where "p' = (if u > 0 then p[i := result ! (u - 1)] else p)"
  from inv have lenp: "length p = length arr" and ne: "result \<noteq> []"
    and C: "\<And>k. k < length result \<Longrightarrow>
               active arr (result ! k) \<and> result ! k < i \<and> chain arr p (result ! k) k"
    and S: "sorted_wrt (<) (map ((!) arr) result)"
    and E: "seq_opt arr i result"
    by (auto simp: seq_inv_iff)
  have keep: "\<And>j k. chain arr p j k \<Longrightarrow> j < i \<Longrightarrow> chain arr p' j k"
    using chain_update by (simp add: p'_def)
  have a: "length p' = length arr" using lenp by (simp add: p'_def)
  have chi: "chain arr p' i u"
  proof (cases u)
    case 0 then show ?thesis by simp
  next
    case (Suc u')
    have u': "u' < length result" "u' < u" using Suc u by auto
    have "p' ! i = result ! u'" using Suc i lenp by (simp add: p'_def)
    moreover have "arr ! (result ! u') < arr ! i" using below u' by blast
    moreover have "chain arr p' (result ! u') u'" using keep C[OF u'(1)] by blast
    ultimately show ?thesis using Suc C[OF u'(1)] by simp
  qed
  have c: "\<forall>k<length (result[u := i]). active arr (result[u := i] ! k) \<and> result[u := i] ! k < Suc i \<and>
            chain arr p' (result[u := i] ! k) k"
  proof (intro allI impI)
    fix k assume k: "k < length (result[u := i])"
    show "active arr (result[u := i] ! k) \<and> result[u := i] ! k < Suc i \<and>
            chain arr p' (result[u := i] ! k) k"
    proof (cases "k = u")
      case True
      then show ?thesis using chi u i x by (simp add: active_def)
    next
      case False
      then show ?thesis using C[of k] k keep[of "result ! k" k] by (simp add: less_Suc_eq)
    qed
  qed
  have d: "sorted_wrt (<) (map ((!) arr) (result[u := i]))"
    unfolding sorted_wrt_iff_nth_less
  proof (intro allI impI)
    fix a b assume ab: "a < b" "b < length (map ((!) arr) (result[u := i]))"
    then have b: "b < length result" and a': "a < length result" by auto
    consider "a = u" | "b = u" | "a \<noteq> u" "b \<noteq> u" by blast
    then show "map ((!) arr) (result[u := i]) ! a < map ((!) arr) (result[u := i]) ! b"
    proof cases
      case 1
      then have "arr ! (result ! u) < arr ! (result ! b)"
        using vals_strict[OF S, of u b] ab b by simp
      with lt 1 ab b a' show ?thesis by simp
    next
      case 2
      then have "arr ! (result ! a) < arr ! i" using below ab by simp
      with 2 ab b a' show ?thesis by simp
    next
      case 3
      then show ?thesis using vals_strict[OF S, of a b] ab b a' by simp
    qed
  qed
  have e: "seq_opt arr (Suc i) (result[u := i])"
  proof (rule seq_opt_step[OF E])
    show "length result \<le> length (result[u := i])" by simp
    show "\<forall>k<length result. arr ! (result[u := i] ! k) \<le> arr ! (result ! k)"
      using lt u by (auto simp: nth_list_update intro: less_imp_le)
    show "0 < length (result[u := i])" using u by auto
    show "arr ! (result[u := i] ! 0) \<le> arr ! i"
      using below u by (cases "u = 0") (auto simp: nth_list_update intro: less_imp_le)
    show "\<forall>m. 0 < m \<and> m \<le> length result \<and> arr ! (result ! (m - 1)) < arr ! i \<longrightarrow>
            m < length (result[u := i]) \<and> arr ! (result[u := i] ! m) \<le> arr ! i"
    proof (intro allI impI)
      fix m assume m: "0 < m \<and> m \<le> length result \<and> arr ! (result ! (m - 1)) < arr ! i"
      have "m - 1 < u"
      proof (rule ccontr)
        assume "\<not> m - 1 < u"
        then have "u \<le> m - 1" by simp
        moreover have "m - 1 < length result" using m by auto
        ultimately have "arr ! (result ! u) \<le> arr ! (result ! (m - 1))"
          using vals_mono[OF S, of u "m - 1"] by simp
        with m lt show False by simp
      qed
      then have mu: "m \<le> u" using m by simp
      show "m < length (result[u := i]) \<and> arr ! (result[u := i] ! m) \<le> arr ! i"
      proof (cases "m = u")
        case True then show ?thesis using u by simp
      next
        case False
        then have "m < u" using mu by simp
        then show ?thesis using below u by (auto simp: nth_list_update intro: less_imp_le)
      qed
    qed
  qed
  show ?thesis
    using a ne c d e unfolding p'_def[symmetric] by (simp add: seq_inv_iff)
qed


lemma step_unfold:
  "arr ! i \<noteq> 0 \<Longrightarrow> js_get arr (result ! (length result - 1)) = Some a \<Longrightarrow> \<not> a < arr ! i \<Longrightarrow>
   arr_at_result arr result (getSequence_search arr result (arr ! i) 0 (length result - 1)) = Some b \<Longrightarrow>
   getSequence_step arr i (p, result) =
     (let u = getSequence_search arr result (arr ! i) 0 (length result - 1) in
      if arr ! i < b
      then ((if u > 0 then p[i := result ! (u - 1)] else p), result[u := i])
      else (p, result))"
  by (simp add: getSequence_step_def Let_def)

lemma step_inv:
  assumes inv: "seq_inv arr i s" and i: "0 < i" "i < length arr"
  shows "seq_inv arr (Suc i) (getSequence_step arr i s)"
proof -
  obtain p result where s: "s = (p, result)" by (cases s)
  from inv s have ne: "result \<noteq> []"
    and C: "\<And>k. k < length result \<Longrightarrow> active arr (result ! k) \<and> result ! k < i"
    and S: "sorted_wrt (<) (map ((!) arr) result)"
    by (auto simp: seq_inv_iff)
  define L where "L = length result"
  have Lpos: "0 < L" using ne by (simp add: L_def)
  have inr: "\<forall>k<length result. result ! k < length arr"
    using C i by (auto simp: active_def)
  show ?thesis
  proof (cases "arr ! i = 0")
    case True
    then show ?thesis using inv_skip[of arr i p result] inv s i
      by (simp add: getSequence_step_def)
  next
    case nz: False
    have jget: "js_get arr (result ! (L - 1)) = Some (arr ! (result ! (L - 1)))"
      using inr Lpos by (simp add: js_get_def L_def)
    show ?thesis
    proof (cases "arr ! (result ! (L - 1)) < arr ! i")
      case True
      then show ?thesis
        using inv_push[of arr i p result] inv s i nz jget
        by (simp add: getSequence_step_def L_def Let_def)
    next
      case False
      define u where "u = getSequence_search arr result (arr ! i) 0 (L - 1)"
      have sp: "u \<le> L - 1 \<and> (\<forall>c<u. arr ! (result ! c) < arr ! i) \<and> arr ! i \<le> arr ! (result ! u)"
        using search_spec[of 0 "L - 1" result arr "arr ! i"] inr S False Lpos
        by (simp add: u_def L_def)
      then have "u < L" using Lpos by linarith
      then have uL: "u < length result" by (simp add: L_def)
      have uget: "arr_at_result arr result u = Some (arr ! (result ! u))"
        using uL inr by (simp add: arr_at_result_in)
      have unfold: "getSequence_step arr i s =
          (if arr ! i < arr ! (result ! u)
           then ((if u > 0 then p[i := result ! (u - 1)] else p), result[u := i])
           else (p, result))"
        using step_unfold[of arr i result "arr ! (result ! (L - 1))" "arr ! (result ! u)" p]
          s nz jget False uget
        unfolding u_def L_def by (simp add: Let_def)
      show ?thesis
      proof (cases "arr ! i < arr ! (result ! u)")
        case True
        then show ?thesis
          using inv_replace[of arr i p result u] inv s i nz uL sp unfold by simp
      next
        case False
        with sp have "arr ! (result ! u) = arr ! i" by simp
        then show ?thesis
          using inv_stay[of arr i p result u] inv s uL sp unfold False by simp
      qed
    qed
  qed
qed

lemma loop_inv:
  "seq_inv arr i s \<Longrightarrow> 0 < i \<Longrightarrow> i \<le> length arr \<Longrightarrow>
   seq_inv arr (length arr) (getSequence_loop arr i s)"
proof (induction arr i s rule: getSequence_loop.induct)
  case (1 arr i s)
  show ?case
  proof (cases "i < length arr")
    case True
    then have "seq_inv arr (i + 1) (getSequence_step arr i s)"
      using step_inv[of arr i s] "1.prems" by simp
    then have "seq_inv arr (length arr) (getSequence_loop arr (i + 1) (getSequence_step arr i s))"
      using "1.IH"[OF True] True by simp
    then show ?thesis using True by (subst getSequence_loop.simps) simp
  next
    case False
    then show ?thesis using "1.prems" by (subst getSequence_loop.simps) simp
  qed
qed

lemma step_first: "arr \<noteq> [] \<Longrightarrow> getSequence_step arr 0 (arr, [0]) = (arr, [0])"
  by (simp add: getSequence_step_def js_get_def arr_at_result_def getSequence_search.simps Let_def)

lemma init_inv:
  assumes "arr \<noteq> []"
  shows "seq_inv arr (Suc 0) (arr, [0])"
proof -
  have "seq_opt arr (Suc 0) [0]"
    unfolding seq_opt_def
  proof (intro allI impI)
    fix qs assume qs: "incr_upto arr (Suc 0) qs \<and> qs \<noteq> []"
    then have z: "\<forall>j\<in>set qs. j = 0" and d: "distinct qs"
      by (auto simp: incr_upto_def strict_sorted_iff)
    have "qs = [0]"
    proof (cases qs)
      case Nil with qs show ?thesis by simp
    next
      case (Cons a as)
      with z d have "a = 0" "as = []" by (cases as; auto)+
      with Cons show ?thesis by simp
    qed
    then show "length qs \<le> length [0::nat] \<and> arr ! ([0] ! (length qs - 1)) \<le> arr ! last qs"
      by simp
  qed
  then show ?thesis using assms by (simp add: seq_inv_iff active_def)
qed

lemma loop_from_start:
  assumes "arr \<noteq> []"
  shows "seq_inv arr (length arr) (getSequence_loop arr 0 (arr, [0]))"
proof -
  have "getSequence_loop arr 0 (arr, [0]) = getSequence_loop arr (Suc 0) (arr, [0])"
    using assms step_first[OF assms] by (subst getSequence_loop.simps) simp
  moreover have "seq_inv arr (length arr) (getSequence_loop arr (Suc 0) (arr, [0]))"
    using loop_inv[OF init_inv[OF assms]] assms by (cases arr) auto
  ultimately show ?thesis by simp
qed

lemma chain_list_props:
  "chain arr p w m \<Longrightarrow> active arr w \<Longrightarrow>
   length (chain_list p w m) = Suc m \<and> sorted_wrt (<) (chain_list p w m) \<and>
   (\<forall>j\<in>set (chain_list p w m). active arr j \<and> j \<le> w \<and> arr ! j \<le> arr ! w) \<and>
   sorted_wrt (<) (map ((!) arr) (chain_list p w m))"
proof (induction m arbitrary: w)
  case 0
  then show ?case by simp
next
  case (Suc m)
  from Suc.prems have st: "p ! w < w" "active arr (p ! w)" "arr ! (p ! w) < arr ! w"
    "chain arr p (p ! w) m" by auto
  from Suc.IH[OF st(4) st(2)] st Suc.prems(2) show ?case
    by (fastforce simp: sorted_wrt_append)
qed

lemma trace_chain:
  "chain arr p w m \<Longrightarrow> w < length p \<Longrightarrow> m < length res \<Longrightarrow>
   getSequence_trace (Suc m) (Some w) p res = Some (chain_list p w m @ drop (Suc m) res)"
proof (induction m arbitrary: w res)
  case 0
  then show ?case by (cases res) (auto simp: drop_Suc)
next
  case (Suc m)
  from Suc.prems have st: "p ! w < w" "chain arr p (p ! w) m" by auto
  have "getSequence_trace (Suc (Suc m)) (Some w) p res =
        getSequence_trace (Suc m) (Some (p ! w)) p (res[Suc m := w])"
    using Suc.prems by (simp add: js_get_def)
  also have "\<dots> = Some (chain_list p (p ! w) m @ drop (Suc m) (res[Suc m := w]))"
    using Suc.IH[OF st(2), of "res[Suc m := w]"] st Suc.prems by simp
  also have "drop (Suc m) (res[Suc m := w]) = w # drop (Suc (Suc m)) res"
    using Suc.prems(3) by (simp add: drop_update_cancel Cons_nth_drop_Suc[symmetric] upd_conv_take_nth_drop)
  finally show ?case by simp
qed

lemma getSequence_active:
  assumes "arr \<noteq> []"
  shows "\<exists>ps. getSequence arr = Some ps \<and> incr_upto arr (length arr) ps \<and>
           (\<forall>qs. incr_upto arr (length arr) qs \<longrightarrow> length qs \<le> length ps)"
proof -
  obtain p result where lp: "getSequence_loop arr 0 (arr, [0]) = (p, result)"
    by (cases "getSequence_loop arr 0 (arr, [0])")
  have inv: "seq_inv arr (length arr) (p, result)"
    using loop_from_start[OF assms] lp by simp
  define L where "L = length result"
  define w where "w = result ! (L - 1)"
  from inv have lenp: "length p = length arr" and ne: "result \<noteq> []"
    and C: "\<And>k. k < L \<Longrightarrow> active arr (result ! k) \<and> result ! k < length arr \<and> chain arr p (result ! k) k"
    and E: "seq_opt arr (length arr) result"
    by (auto simp: seq_inv_iff L_def)
  have Lpos: "0 < L" using ne by (simp add: L_def)
  have w: "active arr w" "w < length p" "chain arr p w (L - 1)"
    using C[of "L - 1"] Lpos lenp by (auto simp: w_def)
  have SL: "Suc (L - 1) = L" using Lpos by simp
  have "getSequence arr = getSequence_trace L (Some w) p result"
    using lp Lpos by (simp add: getSequence_def js_get_def L_def w_def)
  also have "\<dots> = Some (chain_list p w (L - 1) @ drop L result)"
    using trace_chain[OF w(3) w(2), of result] Lpos unfolding SL by (simp add: L_def)
  finally have g: "getSequence arr = Some (chain_list p w (L - 1))"
    by (simp add: L_def)
  have props: "length (chain_list p w (L - 1)) = L" "sorted_wrt (<) (chain_list p w (L - 1))"
    "\<forall>j\<in>set (chain_list p w (L - 1)). active arr j"
    "sorted_wrt (<) (map ((!) arr) (chain_list p w (L - 1)))"
    using chain_list_props[OF w(3) w(1)] Lpos by auto
  have inc: "incr_upto arr (length arr) (chain_list p w (L - 1))"
    using props by (auto simp: incr_upto_def active_def)
  have "\<forall>qs. incr_upto arr (length arr) qs \<longrightarrow> length qs \<le> L"
  proof (intro allI impI)
    fix qs assume "incr_upto arr (length arr) qs"
    then show "length qs \<le> L" using E by (cases "qs = []") (auto simp: seq_opt_def L_def)
  qed
  with g inc props(1) show ?thesis by simp
qed


text \<open>
  A strictly increasing list of positions of non-zero entries whose entries increase
  strictly: an increasing subsequence of the non-zero entries, by position.
\<close>

definition increasing_positions :: "nat list \<Rightarrow> nat list \<Rightarrow> bool" where
  "increasing_positions arr ps \<longleftrightarrow>
     sorted_wrt (<) ps \<and> (\<forall>j\<in>set ps. j < length arr \<and> arr ! j \<noteq> 0) \<and>
     sorted_wrt (<) (map ((!) arr) ps)"

lemma incr_upto_nonzero_head:
  "arr \<noteq> [] \<Longrightarrow> arr ! 0 \<noteq> 0 \<Longrightarrow> incr_upto arr (length arr) qs = increasing_positions arr qs"
  by (auto simp: incr_upto_def increasing_positions_def active_def)

lemma getSequence_lis:
  assumes "arr \<noteq> []" "arr ! 0 \<noteq> 0"
  shows "\<exists>ps. getSequence arr = Some ps \<and> increasing_positions arr ps \<and>
           (\<forall>qs. increasing_positions arr qs \<longrightarrow> length qs \<le> length ps)"
  using getSequence_active[OF assms(1)] incr_upto_nonzero_head[OF assms] by simp

section \<open>Facts about the functions of the renderer\<close>

lemmas state_simps = el_of_def anchor_of_def set_el_def set_anchor_def log_op_def dynamicChildren_of_def
  hostSetText_def hostSetElementText_def hostPatchProp_def hostRemove_def hostInsert_def
  hostCreateText_def hostCreateComment_def hostCreateElement_def new_node_def detach_def attach_def
  hostNextSibling_def next_after_def hostParentNode_def

lemmas example_simps = vue_env_def init_state_def mounted_state_def text_vnode_def comment_vnode_def
  element_vnode_def isSameVNodeType_def as_string_def as_array_def prop_get_def prop_in_def
  prop_keys_def EMPTY_OBJ_def is_ELEMENT_def is_COMPONENT_def is_TELEPORT_def is_SUSPENSE_def
  is_TEXT_CHILDREN_def is_ARRAY_CHILDREN_def

lemma patch_Text:
  assumes "vtype n2 = Text" "isSameVNodeType n1 n2" "ident n1 \<noteq> ident n2"
  shows "patch e (Some n1) n2 container anchor optimized s =
     processText (Some n1) n2 container anchor
       (if patchFlag n2 = BAIL e then s\<lparr>bailed := (bailed s)(ident n2 := True)\<rparr> else s)"
  using assms by (simp add: patch.simps Let_def)

lemma patch_Comment:
  assumes "vtype n2 = Comment" "isSameVNodeType n1 n2" "ident n1 \<noteq> ident n2"
  shows "patch e (Some n1) n2 container anchor optimized s =
     processCommentNode (Some n1) n2 container anchor
       (if patchFlag n2 = BAIL e then s\<lparr>bailed := (bailed s)(ident n2 := True)\<rparr> else s)"
  using assms by (simp add: patch.simps Let_def)


lemma ops_hostPatchProp [simp]: "ops (hostPatchProp h k p n s) = ops s @ [OpPatchProp h k p n]"
  by (simp add: hostPatchProp_def log_op_def)

lemma ops_hostSetElementText [simp]: "ops (hostSetElementText h t s) = ops s @ [OpSetElementText h t]"
  by (simp add: hostSetElementText_def log_op_def)







section \<open>The claims\<close>

text \<open>
  C2. The claim: for every array of non-negative integers, getSequence returns the
  positions of a longest increasing subsequence of the non-zero entries, zero entries
  being excluded. The loop skips zero entries, but the result array starts as \<open>[0]\<close>:
  for the array \<open>[0, 3, 2, 1]\<close>, which patchKeyedChildren builds for old \<open>[a, b, c]\<close>
  and new \<open>[x, c, b, a]\<close>, the function returns the positions \<open>[0, 3]\<close>, and position
  \<open>0\<close> holds a zero entry.
\<close>

theorem getSequence_zero_head:
  "getSequence [0, 3, 2, 1] = Some [0, 3] \<and> [0, 3, 2, 1] ! 0 = (0::nat)"
  by code_simp



text \<open>
  C5. For every node and every container, patch with the old and the new argument
  being the same reference returns at once: the state, with the trace of host operations
  and the host tree, is unchanged.
\<close>

theorem patch_same_reference:
  "patch e (Some n) n container anchor optimized s = Some s"
  by (simp add: patch.simps)

theorem patch_same_reference_witness:
  "patch vue_env (Some (text_vnode 1 None ''a'')) (text_vnode 1 None ''a'') 0 None False init_state
     = Some init_state"
  by (rule patch_same_reference)






text \<open>
  C8, as amended. For a pair of text nodes or of comment nodes of the same type, the old
  one mounted: the new node takes the host node of the old one and no host node is
  created; for text nodes, the only host operation is one \<open>setText\<close>, issued exactly
  when the strings differ; for comment nodes no host operation is issued and the host
  content stays as it is, whether the content differs or not.
\<close>

theorem patch_text_and_comment:
  assumes "isSameVNodeType n1 n2" "ident n1 \<noteq> ident n2" "el_of s n1 = Some el"
  shows "(vtype n2 = Text \<and> children n2 = TextChildren t \<longrightarrow>
           (\<exists>s'. patch e (Some n1) n2 container anchor optimized s = Some s' \<and>
                 el_of s' n2 = Some el \<and>
                 ops s' = ops s @ (if children n2 \<noteq> children n1 then [OpSetText el t] else []))) \<and>
         (vtype n2 = Comment \<longrightarrow>
           (\<exists>s'. patch e (Some n1) n2 container anchor optimized s = Some s' \<and>
                 el_of s' n2 = Some el \<and> ops s' = ops s \<and> host_text s' = host_text s))"
  using assms
  by (auto simp: patch_Text patch_Comment processText_def processCommentNode_def state_simps as_string_def)

theorem patch_text_and_comment_witness:
  "(\<exists>s'. patch vue_env (Some (text_vnode 1 None ''a'')) (text_vnode 2 None ''b'') 0 None False
           (mounted_state HText ''a'') = Some s' \<and>
         el_of s' (text_vnode 2 None ''b'') = Some 1 \<and> ops s' = [OpSetText 1 ''b'']) \<and>
   (\<exists>s'. patch vue_env (Some (comment_vnode 1 None ''a'')) (comment_vnode 2 None ''b'') 0 None False
           (mounted_state HComment ''a'') = Some s' \<and>
         el_of s' (comment_vnode 2 None ''b'') = Some 1 \<and> ops s' = [] \<and>
         host_text s' 1 = ''a'')"
  using patch_text_and_comment [of "text_vnode 1 None ''a''" "text_vnode 2 None ''b''"
      "mounted_state HText ''a''" 1 "''b''" vue_env 0 None False]
    patch_text_and_comment [of "comment_vnode 1 None ''a''" "comment_vnode 2 None ''b''"
      "mounted_state HComment ''a''" 1 "''b''" vue_env 0 None False]
  by (auto simp add: example_simps state_simps)

text \<open>
  The claim as stated fails for comment nodes: a comment mounted with content \<open>a\<close> and
  patched with content \<open>b\<close> issues no host operation, and the host node keeps \<open>a\<close>.
\<close>

theorem comment_content_not_updated:
  "map_option (\<lambda>s. (ops s, host_text s 1))
     (patch vue_env (Some (comment_vnode 1 None ''a'')) (comment_vnode 2 None ''b'') 0 None False
        (mounted_state HComment ''a''))
   = Some ([], ''a'')"
  by (simp add: patch.simps processCommentNode_def example_simps state_simps)






end
